theory Spec2Isabelle
  imports Main
begin

section \<open>The resource registry (PlaywrightMCPServer, CopilotPlaywrightAgent)\<close>

text \<open>
  The registry classes hold three JavaScript \<^verbatim>\<open>Map\<close>s from string ids to Playwright
  objects: \<^verbatim>\<open>browsers\<close>, \<^verbatim>\<open>contexts\<close> and \<^verbatim>\<open>pages\<close>. A \<^verbatim>\<open>Map\<close> keeps its entries in
  insertion order and the cascade loops iterate in that order, so a map is modelled as
  an association list. The Playwright objects are compared by identity
  (\<^verbatim>\<open>page.context() === context\<close>), so every object carries a reference; a context
  records the reference of its browser and a page the reference of its context, which is
  what \<^verbatim>\<open>context.browser()\<close> and \<^verbatim>\<open>page.context()\<close> return.
\<close>

type_synonym ref = nat

datatype browser_type = Chromium | Firefox | Webkit

datatype browser_obj = Browser (browser_ref: ref) (browser_kind: browser_type)

datatype context_obj = BrowserContext (context_ref: ref) (context_browser: ref)

datatype page_obj = Page (page_ref: ref) (page_context: ref)

type_synonym 'v js_map = "(string \<times> 'v) list"

record registry =
  browsers :: "browser_obj js_map"
  contexts :: "context_obj js_map"
  pages :: "page_obj js_map"

datatype kind = BrowserK | ContextK | PageK

text \<open>
  Every \<^verbatim>\<open>throw new Error(...)\<close> of the registry is a constructor; \<open>EngineError\<close> stands
  for an exception thrown by a Playwright call (\<^verbatim>\<open>page.close()\<close>, \<^verbatim>\<open>context.close()\<close>,
  \<^verbatim>\<open>browser.close()\<close>, \<^verbatim>\<open>launch\<close>, \<^verbatim>\<open>newContext\<close>, \<^verbatim>\<open>newPage\<close>), which the registry
  methods do not catch.
\<close>

datatype error =
    NotFound kind string
  | AlreadyExists kind string
  | UnsupportedBrowserType string
  | EngineError kind ref
  | EngineCreateError kind

text \<open>
  The Playwright engine is outside the repository. What the registry can observe of it
  is which native close calls throw: the references listed here.
\<close>

record engine =
  page_close_throws :: "ref list"
  context_close_throws :: "ref list"
  browser_close_throws :: "ref list"

subsection \<open>Map operations\<close>

definition map_get :: "'v js_map \<Rightarrow> string \<Rightarrow> 'v option" where
  "map_get m k = map_of m k"

definition map_has :: "'v js_map \<Rightarrow> string \<Rightarrow> bool" where
  "map_has m k = (map_of m k \<noteq> None)"

text \<open>\<^verbatim>\<open>Map.set\<close>: an existing key keeps its place, a new key goes last.\<close>

fun map_set :: "'v js_map \<Rightarrow> string \<Rightarrow> 'v \<Rightarrow> 'v js_map" where
  "map_set [] k v = [(k, v)]"
| "map_set (e # es) k v = (if fst e = k then (k, v) # es else e # map_set es k v)"

definition map_delete :: "'v js_map \<Rightarrow> string \<Rightarrow> 'v js_map" where
  "map_delete m k = filter (\<lambda>e. fst e \<noteq> k) m"

definition keys :: "'v js_map \<Rightarrow> string list" where
  "keys m = map fst m"

text \<open>A \<^verbatim>\<open>Map\<close> holds one entry per key.\<close>

definition wf_registry :: "registry \<Rightarrow> bool" where
  "wf_registry r \<longleftrightarrow>
     distinct (keys (browsers r)) \<and> distinct (keys (contexts r)) \<and> distinct (keys (pages r))"

subsection \<open>Close operations\<close>

text \<open>
  \<^verbatim>\<open>closePage\<close>: look the page up, throw when it is absent, await \<^verbatim>\<open>page.close()\<close>, then
  delete the entry. An exception of \<^verbatim>\<open>page.close()\<close> leaves the method before the delete.
  Each operation returns its outcome together with the registry it leaves behind.
\<close>

definition closePage :: "engine \<Rightarrow> registry \<Rightarrow> string \<Rightarrow> (error + unit) \<times> registry" where
  "closePage eng r pageId =
     (case map_get (pages r) pageId of
        None \<Rightarrow> (Inl (NotFound PageK pageId), r)
      | Some page \<Rightarrow>
          if page_ref page \<in> set (page_close_throws eng)
          then (Inl (EngineError PageK (page_ref page)), r)
          else (Inr (), r\<lparr>pages := map_delete (pages r) pageId\<rparr>))"

text \<open>
  The loop \<^verbatim>\<open>for (const [pageId, page] of this.pages.entries())\<close> of \<^verbatim>\<open>closeContext\<close> and
  \<^verbatim>\<open>closeBrowser\<close>. The only entry the body deletes is the one just visited, so the live
  iterator visits the entries the map held when the loop started, in order: the first
  argument list. The second is the map as it is updated. A throwing \<^verbatim>\<open>page.close()\<close>
  ends the loop with the deletions made so far.
\<close>

fun close_pages_of ::
  "engine \<Rightarrow> context_obj \<Rightarrow> page_obj js_map \<Rightarrow> page_obj js_map \<Rightarrow> (error + unit) \<times> page_obj js_map"
where
  "close_pages_of eng ctx [] ps = (Inr (), ps)"
| "close_pages_of eng ctx (e # es) ps =
     (if page_context (snd e) = context_ref ctx
      then (if page_ref (snd e) \<in> set (page_close_throws eng)
            then (Inl (EngineError PageK (page_ref (snd e))), ps)
            else close_pages_of eng ctx es (map_delete ps (fst e)))
      else close_pages_of eng ctx es ps)"

text \<open>
  The body run for one context that is being closed: close its pages, await
  \<^verbatim>\<open>context.close()\<close>, delete the context's entry.
\<close>

definition close_context_entry ::
  "engine \<Rightarrow> string \<Rightarrow> context_obj \<Rightarrow> registry \<Rightarrow> (error + unit) \<times> registry" where
  "close_context_entry eng contextId ctx r =
     (case close_pages_of eng ctx (pages r) (pages r) of
        (Inl err, ps) \<Rightarrow> (Inl err, r\<lparr>pages := ps\<rparr>)
      | (Inr u, ps) \<Rightarrow>
          if context_ref ctx \<in> set (context_close_throws eng)
          then (Inl (EngineError ContextK (context_ref ctx)), r\<lparr>pages := ps\<rparr>)
          else (Inr (), r\<lparr>pages := ps, contexts := map_delete (contexts r) contextId\<rparr>))"

definition closeContext :: "engine \<Rightarrow> registry \<Rightarrow> string \<Rightarrow> (error + unit) \<times> registry" where
  "closeContext eng r contextId =
     (case map_get (contexts r) contextId of
        None \<Rightarrow> (Inl (NotFound ContextK contextId), r)
      | Some ctx \<Rightarrow> close_context_entry eng contextId ctx r)"

text \<open>
  The outer loop of \<^verbatim>\<open>closeBrowser\<close> over \<^verbatim>\<open>this.contexts.entries()\<close>: the first list is
  what remains to visit, the registry is threaded through.
\<close>

fun close_contexts_of ::
  "engine \<Rightarrow> browser_obj \<Rightarrow> context_obj js_map \<Rightarrow> registry \<Rightarrow> (error + unit) \<times> registry"
where
  "close_contexts_of eng b [] r = (Inr (), r)"
| "close_contexts_of eng b (e # es) r =
     (if context_browser (snd e) = browser_ref b
      then (case close_context_entry eng (fst e) (snd e) r of
              (Inl err, r') \<Rightarrow> (Inl err, r')
            | (Inr u, r') \<Rightarrow> close_contexts_of eng b es r')
      else close_contexts_of eng b es r)"

definition closeBrowser :: "engine \<Rightarrow> registry \<Rightarrow> string \<Rightarrow> (error + unit) \<times> registry" where
  "closeBrowser eng r browserId =
     (case map_get (browsers r) browserId of
        None \<Rightarrow> (Inl (NotFound BrowserK browserId), r)
      | Some b \<Rightarrow>
          (case close_contexts_of eng b (contexts r) r of
             (Inl err, r') \<Rightarrow> (Inl err, r')
           | (Inr u, r') \<Rightarrow>
               if browser_ref b \<in> set (browser_close_throws eng)
               then (Inl (EngineError BrowserK (browser_ref b)), r')
               else (Inr (), r'\<lparr>browsers := map_delete (browsers r') browserId\<rparr>)))"

subsection \<open>Ownership and clean closes\<close>

text \<open>
  The comparisons of the cascade loops, named: a page entry belongs to a context when
  \<^verbatim>\<open>page.context() === context\<close>, a context entry to a browser when
  \<^verbatim>\<open>context.browser() === browser\<close>. A context closes cleanly when none of the native
  closes of its cascade throws: not the close of any of its pages, and not its own.
\<close>

definition page_of :: "context_obj \<Rightarrow> string \<times> page_obj \<Rightarrow> bool" where
  "page_of ctx p \<longleftrightarrow> page_context (snd p) = context_ref ctx"

definition context_of :: "browser_obj \<Rightarrow> string \<times> context_obj \<Rightarrow> bool" where
  "context_of b c \<longleftrightarrow> context_browser (snd c) = browser_ref b"

definition page_throws :: "engine \<Rightarrow> string \<times> page_obj \<Rightarrow> bool" where
  "page_throws eng p \<longleftrightarrow> page_ref (snd p) \<in> set (page_close_throws eng)"

definition closes_cleanly :: "engine \<Rightarrow> registry \<Rightarrow> context_obj \<Rightarrow> bool" where
  "closes_cleanly eng r ctx \<longleftrightarrow>
     (\<forall>p \<in> set (pages r). page_of ctx p \<longrightarrow> \<not> page_throws eng p)
     \<and> context_ref ctx \<notin> set (context_close_throws eng)"

subsection \<open>Creation operations\<close>

text \<open>
  \<^verbatim>\<open>launchBrowser\<close> checks the id first, then the browser type, then launches and
  stores. The engine's part is the argument \<open>launched\<close>: \<open>None\<close> when the launch
  throws, otherwise the reference of the new object. The same holds for
  \<^verbatim>\<open>browser.newContext\<close> and \<^verbatim>\<open>context.newPage\<close> below; the viewport and user-agent
  options of \<^verbatim>\<open>createContext\<close> only reach the engine and are left out.
\<close>

definition parse_browser_type :: "string \<Rightarrow> browser_type option" where
  "parse_browser_type t =
     (if t = ''chromium'' then Some Chromium
      else if t = ''firefox'' then Some Firefox
      else if t = ''webkit'' then Some Webkit
      else None)"

definition launchBrowser ::
  "ref option \<Rightarrow> registry \<Rightarrow> string \<Rightarrow> string \<Rightarrow> (error + unit) \<times> registry" where
  "launchBrowser launched r browserType browserId =
     (if map_has (browsers r) browserId then (Inl (AlreadyExists BrowserK browserId), r)
      else case parse_browser_type browserType of
             None \<Rightarrow> (Inl (UnsupportedBrowserType browserType), r)
           | Some t \<Rightarrow>
               (case launched of
                  None \<Rightarrow> (Inl (EngineCreateError BrowserK), r)
                | Some n \<Rightarrow>
                    (Inr (), r\<lparr>browsers := map_set (browsers r) browserId (Browser n t)\<rparr>)))"

definition createContext ::
  "ref option \<Rightarrow> registry \<Rightarrow> string \<Rightarrow> string \<Rightarrow> (error + unit) \<times> registry" where
  "createContext created r browserId contextId =
     (case map_get (browsers r) browserId of
        None \<Rightarrow> (Inl (NotFound BrowserK browserId), r)
      | Some b \<Rightarrow>
          if map_has (contexts r) contextId then (Inl (AlreadyExists ContextK contextId), r)
          else (case created of
                  None \<Rightarrow> (Inl (EngineCreateError ContextK), r)
                | Some n \<Rightarrow>
                    (Inr (), r\<lparr>contexts :=
                       map_set (contexts r) contextId (BrowserContext n (browser_ref b))\<rparr>)))"

definition createPage ::
  "ref option \<Rightarrow> registry \<Rightarrow> string \<Rightarrow> string \<Rightarrow> (error + unit) \<times> registry" where
  "createPage created r contextId pageId =
     (case map_get (contexts r) contextId of
        None \<Rightarrow> (Inl (NotFound ContextK contextId), r)
      | Some ctx \<Rightarrow>
          if map_has (pages r) pageId then (Inl (AlreadyExists PageK pageId), r)
          else (case created of
                  None \<Rightarrow> (Inl (EngineCreateError PageK), r)
                | Some n \<Rightarrow>
                    (Inr (), r\<lparr>pages := map_set (pages r) pageId (Page n (context_ref ctx))\<rparr>)))"

definition empty_registry :: registry where
  "empty_registry = \<lparr>browsers = [], contexts = [], pages = []\<rparr>"

subsection \<open>Session teardown (AIWebAutomationServer.cleanupSession)\<close>

text \<open>
  The socket server keeps one session per socket id, holding at most one browser and one
  page (both \<^verbatim>\<open>null\<close> until the browser is initialised). \<^verbatim>\<open>cleanupSession\<close> wraps each
  native close in its own \<^verbatim>\<open>try\<close>/\<^verbatim>\<open>catch\<close>, logs, and always deletes the session.
\<close>

record session =
  session_browser :: "ref option"
  session_page :: "ref option"

datatype log_line =
    CleaningUp string
  | PageClosed string
  | PageCloseFailed string
  | BrowserClosed string
  | BrowserCloseFailed string
  | SessionRemoved string

definition cleanupSession ::
  "engine \<Rightarrow> session js_map \<Rightarrow> string \<Rightarrow> session js_map \<times> log_line list" where
  "cleanupSession eng activeSessions socketId =
     (case map_get activeSessions socketId of
        None \<Rightarrow> (activeSessions, [])
      | Some s \<Rightarrow>
          (map_delete activeSessions socketId,
           [CleaningUp socketId]
           @ (case session_page s of
                None \<Rightarrow> []
              | Some p \<Rightarrow> if p \<in> set (page_close_throws eng)
                          then [PageCloseFailed socketId] else [PageClosed socketId])
           @ (case session_browser s of
                None \<Rightarrow> []
              | Some b \<Rightarrow> if b \<in> set (browser_close_throws eng)
                          then [BrowserCloseFailed socketId] else [BrowserClosed socketId])
           @ [SessionRemoved socketId]))"

subsection \<open>A small registry used in the examples\<close>

text \<open>One browser \<open>b1\<close>, one context \<open>c1\<close> in it, and two pages \<open>p1\<close>, \<open>p2\<close> in the context.\<close>

definition example_registry :: registry where
  "example_registry =
     \<lparr>browsers = [(''b1'', Browser 1 Chromium)],
      contexts = [(''c1'', BrowserContext 2 1)],
      pages = [(''p1'', Page 3 2), (''p2'', Page 4 2)]\<rparr>"

definition quiet_engine :: engine where
  "quiet_engine = \<lparr>page_close_throws = [], context_close_throws = [], browser_close_throws = []\<rparr>"

definition first_page_fails :: engine where
  "first_page_fails =
     \<lparr>page_close_throws = [3], context_close_throws = [], browser_close_throws = []\<rparr>"

definition second_page_fails :: engine where
  "second_page_fails =
     \<lparr>page_close_throws = [4], context_close_throws = [], browser_close_throws = []\<rparr>"

text \<open>
  A second registry: browser \<open>b1\<close> with the contexts \<open>c1\<close> (page \<open>p1\<close>) and
  \<open>c2\<close> (pages \<open>p2\<close>, \<open>p3\<close>), and an engine whose close of \<open>p3\<close> throws.
\<close>

definition example_registry2 :: registry where
  "example_registry2 =
     \<lparr>browsers = [(''b1'', Browser 1 Chromium)],
      contexts = [(''c1'', BrowserContext 2 1), (''c2'', BrowserContext 5 1)],
      pages = [(''p1'', Page 3 2), (''p2'', Page 4 5), (''p3'', Page 6 5)]\<rparr>"

definition third_page_fails :: engine where
  "third_page_fails =
     \<lparr>page_close_throws = [6], context_close_throws = [], browser_close_throws = []\<rparr>"

definition example_sessions :: "session js_map" where
  "example_sessions =
     [(''s1'', \<lparr>session_browser = Some 1, session_page = Some 3\<rparr>),
      (''s2'', \<lparr>session_browser = None, session_page = None\<rparr>)]"

text \<open>Bookkeeping for the proofs: the keys the page loop has deleted when it stops.\<close>

fun closed_page_keys :: "engine \<Rightarrow> context_obj \<Rightarrow> page_obj js_map \<Rightarrow> string list" where
  "closed_page_keys eng ctx [] = []"
| "closed_page_keys eng ctx (e # es) =
     (if page_context (snd e) = context_ref ctx
      then (if page_ref (snd e) \<in> set (page_close_throws eng) then []
            else fst e # closed_page_keys eng ctx es)
      else closed_page_keys eng ctx es)"

section \<open>Element resolution (AIWebAutomationServer.findElement)\<close>

text \<open>
  A strategy of \<^verbatim>\<open>PLAYWRIGHT_SELECTOR_STRATEGIES\<close> builds a locator from the page and the
  target text; building one does not touch the page, so a locator is modelled by its
  selector string. The page is what answers \<^verbatim>\<open>count()\<close> and \<^verbatim>\<open>isVisible()\<close> for a
  locator; either call may throw (\<open>Inl\<close> with the message).
\<close>

record page_dom =
  locator_count :: "string \<Rightarrow> string + nat"
  locator_isVisible :: "string \<Rightarrow> string + bool"

definition PLAYWRIGHT_SELECTOR_STRATEGIES :: "(string \<Rightarrow> string) list" where
  \<open>PLAYWRIGHT_SELECTOR_STRATEGIES =
     [\<lambda>selector. selector,
      \<lambda>selector. ''text='' @ selector,
      \<lambda>selector. ''[aria-label*="'' @ selector @ ''" i]'',
      \<lambda>selector. ''[title*="'' @ selector @ ''" i]'',
      \<lambda>selector. ''[placeholder*="'' @ selector @ ''" i]'',
      \<lambda>selector. ''button:has-text("'' @ selector @ ''")'',
      \<lambda>selector. ''a:has-text("'' @ selector @ ''")'',
      \<lambda>selector. ''*:has-text("'' @ selector @ ''")'']\<close>

text \<open>
  The \<^verbatim>\<open>for\<close> loop of \<^verbatim>\<open>findElement\<close>. The \<^verbatim>\<open>catch\<close> only logs, so a strategy whose
  \<^verbatim>\<open>count()\<close> or \<^verbatim>\<open>isVisible()\<close> throws is skipped like one that finds nothing.
\<close>

fun findElement_loop :: "page_dom \<Rightarrow> string \<Rightarrow> (string \<Rightarrow> string) list \<Rightarrow> string option" where
  "findElement_loop page selector [] = None"
| "findElement_loop page selector (strategy # rest) =
     (let element = strategy selector in
      case locator_count page element of
        Inl err \<Rightarrow> findElement_loop page selector rest
      | Inr n \<Rightarrow>
          if n > 0
          then (case locator_isVisible page element of
                  Inl err \<Rightarrow> findElement_loop page selector rest
                | Inr visible \<Rightarrow>
                    if visible then Some element else findElement_loop page selector rest)
          else findElement_loop page selector rest)"

definition findElement :: "page_dom \<Rightarrow> string \<Rightarrow> string option" where
  "findElement page selector = findElement_loop page selector PLAYWRIGHT_SELECTOR_STRATEGIES"

text \<open>
  A strategy yields a visible candidate: its candidate set is not empty and the first
  candidate is reported visible.
\<close>

definition yields_visible :: "page_dom \<Rightarrow> string \<Rightarrow> (string \<Rightarrow> string) \<Rightarrow> bool" where
  "yields_visible page selector strategy \<longleftrightarrow>
     (case locator_count page (strategy selector) of
        Inl err \<Rightarrow> False
      | Inr n \<Rightarrow> n > 0 \<and> locator_isVisible page (strategy selector) = Inr True)"

text \<open>A page where only the text match and the button match of \<open>Login\<close> are visible.\<close>

definition example_page :: page_dom where
  \<open>example_page =
     \<lparr>locator_count = (\<lambda>l. if l = ''Login'' then Inl ''bad selector''
                            else if l = ''text=Login'' \<or> l = ''button:has-text("Login")'' then Inr 1
                            else if l = ''[title*="Login" i]'' then Inr 2
                            else Inr 0),
      locator_isVisible = (\<lambda>l. Inr (l = ''text=Login'' \<or> l = ''button:has-text("Login")''))\<rparr>\<close>


section \<open>Workflow execution (CopilotPlaywrightAgent.executeWorkflow)\<close>

text \<open>
  A workflow step carries a name and a command (its optional \<^verbatim>\<open>context\<close> is passed on to
  handlers that never read it). \<^verbatim>\<open>executeNaturalLanguageCommand\<close> looks the page up and
  throws when it is absent; the keyword dispatch and the Playwright handlers behind it are
  the parameter \<open>dispatch\<close>, which runs a command against a page in a browser state
  \<open>'w\<close> and either throws (\<open>Inl\<close>) or returns a result. An error entry of the
  result list holds the caught error, of which the source stores the message.
\<close>

record step =
  step_name :: string
  step_command :: string

datatype 'e command_error = PageNotFound string | Thrown 'e

datatype ('e, 'res) step_result =
    StepResult string 'res
  | StepError string "'e command_error"

record ('e, 'res) workflow_response =
  response_success :: bool
  response_workflow :: "('e, 'res) step_result list"

definition executeNaturalLanguageCommand ::
  "('w \<Rightarrow> page_obj \<Rightarrow> string \<Rightarrow> ('e + 'res) \<times> 'w) \<Rightarrow> registry \<Rightarrow> 'w \<Rightarrow> string \<Rightarrow> string
     \<Rightarrow> ('e command_error + 'res) \<times> 'w" where
  "executeNaturalLanguageCommand dispatch r w command pageId =
     (case map_get (pages r) pageId of
        None \<Rightarrow> (Inl (PageNotFound pageId), w)
      | Some page \<Rightarrow>
          (case dispatch w page command of
             (Inl e, w') \<Rightarrow> (Inl (Thrown e), w')
           | (Inr v, w') \<Rightarrow> (Inr v, w')))"

text \<open>The \<^verbatim>\<open>for\<close> loop with its \<^verbatim>\<open>try\<close>/\<^verbatim>\<open>catch\<close>: \<open>results\<close> is the array being filled.\<close>

fun executeWorkflow_loop ::
  "('w \<Rightarrow> page_obj \<Rightarrow> string \<Rightarrow> ('e + 'res) \<times> 'w) \<Rightarrow> registry \<Rightarrow> string \<Rightarrow> step list \<Rightarrow> 'w
     \<Rightarrow> ('e, 'res) step_result list \<Rightarrow> ('e, 'res) step_result list \<times> 'w" where
  "executeWorkflow_loop dispatch r pageId [] w results = (results, w)"
| "executeWorkflow_loop dispatch r pageId (s # rest) w results =
     (case executeNaturalLanguageCommand dispatch r w (step_command s) pageId of
        (Inr result, w') \<Rightarrow>
          executeWorkflow_loop dispatch r pageId rest w' (results @ [StepResult (step_name s) result])
      | (Inl err, w') \<Rightarrow>
          executeWorkflow_loop dispatch r pageId rest w' (results @ [StepError (step_name s) err]))"

definition executeWorkflow ::
  "('w \<Rightarrow> page_obj \<Rightarrow> string \<Rightarrow> ('e + 'res) \<times> 'w) \<Rightarrow> registry \<Rightarrow> 'w \<Rightarrow> step list \<Rightarrow> string
     \<Rightarrow> ('e, 'res) workflow_response \<times> 'w" where
  "executeWorkflow dispatch r w workflow pageId =
     (case executeWorkflow_loop dispatch r pageId workflow w [] of
        (results, w') \<Rightarrow> (\<lparr>response_success = True, response_workflow = results\<rparr>, w'))"

text \<open>What the loop body records for one step run in browser state \<open>w\<close>.\<close>

definition step_outcome ::
  "('w \<Rightarrow> page_obj \<Rightarrow> string \<Rightarrow> ('e + 'res) \<times> 'w) \<Rightarrow> registry \<Rightarrow> string \<Rightarrow> 'w \<Rightarrow> step
     \<Rightarrow> ('e, 'res) step_result" where
  "step_outcome dispatch r pageId w s =
     (case fst (executeNaturalLanguageCommand dispatch r w (step_command s) pageId) of
        Inr result \<Rightarrow> StepResult (step_name s) result
      | Inl err \<Rightarrow> StepError (step_name s) err)"

text \<open>
  A dispatcher for the examples: the browser state counts the commands run, and a
  command throws exactly when it is \<open>boom\<close>.
\<close>

definition example_dispatch :: "nat \<Rightarrow> page_obj \<Rightarrow> string \<Rightarrow> (string + nat) \<times> nat" where
  "example_dispatch w page command =
     (if command = ''boom'' then (Inl ''timeout'', Suc w) else (Inr w, Suc w))"

definition example_workflow :: "step list" where
  "example_workflow =
     [\<lparr>step_name = ''one'', step_command = ''click a''\<rparr>,
      \<lparr>step_name = ''two'', step_command = ''boom''\<rparr>,
      \<lparr>step_name = ''three'', step_command = ''click b''\<rparr>]"

text \<open>The step name an entry of the result list was recorded under.\<close>

fun result_step :: "('e, 'res) step_result \<Rightarrow> string" where
  "result_step (StepResult n v) = n"
| "result_step (StepError n e) = n"

section \<open>Action handlers: wait and scroll\<close>

subsection \<open>JavaScript numbers and \<^verbatim>\<open>parseInt\<close>\<close>

text \<open>
  A number that \<^verbatim>\<open>parseInt\<close> can return is an integer or \<^verbatim>\<open>NaN\<close>; \<open>None\<close> is \<^verbatim>\<open>NaN\<close>.
  Strings are taken over ASCII. \<^verbatim>\<open>parseInt(s, 10)\<close> skips leading white space, reads an
  optional sign and then the longest run of decimal digits; without a digit the result is
  \<^verbatim>\<open>NaN\<close>. (JavaScript rounds an integer beyond \<open>2^53\<close> to the nearest double; the
  sign and being zero, which is all the control flow below looks at, are not affected.)
\<close>

type_synonym js_number = "int option"

definition is_white_space :: "char \<Rightarrow> bool" where
  "is_white_space c \<longleftrightarrow> c \<in> set [CHR 0x09, CHR 0x0A, CHR 0x0B, CHR 0x0C, CHR 0x0D, CHR '' '']"

definition digit_of :: "char \<Rightarrow> int option" where
  "digit_of c = map_of (zip ''0123456789'' [0, 1, 2, 3, 4, 5, 6, 7, 8, 9]) c"

definition is_digit :: "char \<Rightarrow> bool" where
  "is_digit c \<longleftrightarrow> digit_of c \<noteq> None"

definition digits_value :: "string \<Rightarrow> int" where
  "digits_value z = foldl (\<lambda>acc c. 10 * acc + (case digit_of c of Some d \<Rightarrow> d | None \<Rightarrow> 0)) 0 z"

definition parseInt :: "string \<Rightarrow> js_number" where
  "parseInt inputString =
     (let S = dropWhile is_white_space inputString;
          sign = (if S \<noteq> [] \<and> hd S = CHR ''-'' then - 1 else 1);
          S' = (if S \<noteq> [] \<and> (hd S = CHR ''+'' \<or> hd S = CHR ''-'') then tl S else S);
          Z = takeWhile is_digit S'
      in if Z = [] then None else Some (sign * digits_value Z))"

text \<open>\<^verbatim>\<open>a || b\<close> on numbers: \<^verbatim>\<open>NaN\<close> and \<open>0\<close> are falsy.\<close>

definition js_or :: "js_number \<Rightarrow> js_number \<Rightarrow> js_number" where
  "js_or a b = (if a = None \<or> a = Some 0 then b else a)"

definition isNaN :: "js_number \<Rightarrow> bool" where
  "isNaN a \<longleftrightarrow> a = None"

text \<open>\<^verbatim>\<open>a <= 0\<close>: a comparison with \<^verbatim>\<open>NaN\<close> is false.\<close>

definition js_le_zero :: "js_number \<Rightarrow> bool" where
  "js_le_zero a = (case a of None \<Rightarrow> False | Some n \<Rightarrow> n \<le> 0)"

subsection \<open>What a handler does\<close>

text \<open>
  The handlers act through \<^verbatim>\<open>emitStatus\<close> (a message and its type, \<open>info\<close> by default)
  and through the page. The messages are kept by kind with the values they interpolate.
\<close>

datatype status_type = Info | Success | Failure | Warning

datatype message =
    InvalidWaitDuration string
  | Waiting js_number
  | WaitComplete
  | Scrolling string
  | UnknownScrollDirection string
  | Scrolled string
  | ScrollFailed string

datatype effect =
    EmitStatus message status_type
  | WaitForTimeout js_number
  | ScrollBy int int
  | ScrollTo int int
  | ScrollToBottom

subsection \<open>AIWebAutomationServer.handleWait\<close>

text \<open>
  The method calls itself on an invalid duration, so it is defined as a partial function:
  \<open>None\<close> would be a call that never returns. The first argument is the page's part:
  the message \<^verbatim>\<open>page.waitForTimeout\<close> throws, if it throws. The result is the exception
  or normal return of the call with the effects in order.
\<close>

partial_function (option) handleWait ::
  "string option \<Rightarrow> string \<Rightarrow> ((string + unit) \<times> effect list) option" where
  "handleWait timeout_throws duration =
     (let waitTime = js_or (parseInt duration) (Some 2000) in
      if isNaN waitTime \<or> js_le_zero waitTime
      then Option.bind (handleWait timeout_throws ''2000'')
             (\<lambda>(res, effects).
                Some (res, EmitStatus (InvalidWaitDuration duration) Warning # effects))
      else (case timeout_throws of
              Some msg \<Rightarrow>
                Some (Inl msg, [EmitStatus (Waiting waitTime) Info, WaitForTimeout waitTime])
            | None \<Rightarrow>
                Some (Inr (), [EmitStatus (Waiting waitTime) Info, WaitForTimeout waitTime,
                               EmitStatus WaitComplete Success])))"

text \<open>The warning that precedes each re-invocation, and how often a run emitted it.\<close>

fun is_retry_warning :: "effect \<Rightarrow> bool" where
  "is_retry_warning (EmitStatus (InvalidWaitDuration d) Warning) = True"
| "is_retry_warning e = False"

definition retries :: "effect list \<Rightarrow> nat" where
  "retries effects = length (filter is_retry_warning effects)"

subsection \<open>AIWebAutomationServer.handleScroll\<close>

text \<open>
  \<^verbatim>\<open>toLowerCase\<close> on the ASCII letters. No character outside ASCII lower-cases to a
  letter that occurs in the direction words compared below, so the comparison is not
  affected.
\<close>

definition toLowerCase :: "string \<Rightarrow> string" where
  "toLowerCase s =
     map (\<lambda>c. case map_of (zip ''ABCDEFGHIJKLMNOPQRSTUVWXYZ'' ''abcdefghijklmnopqrstuvwxyz'') c of
                Some l \<Rightarrow> l | None \<Rightarrow> c) s"

text \<open>
  One \<^verbatim>\<open>page.evaluate\<close> of a scroll inside the \<^verbatim>\<open>try\<close>: when it throws, the \<^verbatim>\<open>catch\<close>
  emits the error status and rethrows; otherwise the scroll happens and the success
  status follows.
\<close>

definition evaluate_scroll ::
  "string option \<Rightarrow> string \<Rightarrow> effect \<Rightarrow> (string + unit) \<times> effect list" where
  "evaluate_scroll evaluate_throws direction scroll =
     (case evaluate_throws of
        Some msg \<Rightarrow>
          (Inl msg, [EmitStatus (Scrolling direction) Info, EmitStatus (ScrollFailed msg) Failure])
      | None \<Rightarrow>
          (Inr (), [EmitStatus (Scrolling direction) Info, scroll,
                    EmitStatus (Scrolled direction) Success]))"

definition handleScroll :: "string option \<Rightarrow> string \<Rightarrow> (string + unit) \<times> effect list" where
  "handleScroll evaluate_throws direction =
     (let scrollAmount = 500; d = toLowerCase direction in
      if d = ''down'' then evaluate_scroll evaluate_throws direction (ScrollBy 0 scrollAmount)
      else if d = ''up'' then evaluate_scroll evaluate_throws direction (ScrollBy 0 (- scrollAmount))
      else if d = ''top'' \<or> d = ''home'' then evaluate_scroll evaluate_throws direction (ScrollTo 0 0)
      else if d = ''bottom'' then evaluate_scroll evaluate_throws direction ScrollToBottom
      else (Inr (), [EmitStatus (Scrolling direction) Info,
                     EmitStatus (UnknownScrollDirection direction) Warning]))"

subsection \<open>CopilotPlaywrightAgent.extractScrollData and handleScrollCommand\<close>

fun startsWith :: "string \<Rightarrow> string \<Rightarrow> bool" where
  "startsWith s [] = True"
| "startsWith [] (c # cs) = False"
| "startsWith (x # xs) (c # cs) = (x = c \<and> startsWith xs cs)"

text \<open>\<^verbatim>\<open>String.prototype.includes\<close>: the search string occurs at some position.\<close>

fun js_includes :: "string \<Rightarrow> string \<Rightarrow> bool" where
  "js_includes [] sub = (sub = [])"
| "js_includes (x # xs) sub = (startsWith (x # xs) sub \<or> js_includes xs sub)"

definition extractScrollData :: "string \<Rightarrow> int \<times> int" where
  "extractScrollData command =
     (if js_includes command ''down'' then (0, 500)
      else if js_includes command ''up'' then (0, - 500)
      else if js_includes command ''right'' then (500, 0)
      else if js_includes command ''left'' then (- 500, 0)
      else (0, 500))"

definition handleScrollCommand :: "string option \<Rightarrow> string \<Rightarrow> (string + int \<times> int) \<times> effect list" where
  "handleScrollCommand evaluate_throws command =
     (let scrollData = extractScrollData command in
      case evaluate_throws of
        Some msg \<Rightarrow> (Inl msg, [])
      | None \<Rightarrow> (Inr scrollData, [ScrollBy (fst scrollData) (snd scrollData)]))"

section \<open>Properties of the registry\<close>

lemma map_delete_subset: "set (map_delete m k) \<subseteq> set m"
  by (auto simp: map_delete_def)

lemma map_get_map_delete_same: "map_get (map_delete m k) k = None"
  by (induction m) (auto simp: map_delete_def map_get_def)

lemma map_get_map_delete_other: "k' \<noteq> k \<Longrightarrow> map_get (map_delete m k) k' = map_get m k'"
  by (induction m) (auto simp: map_delete_def map_get_def)

lemma keys_map_delete: "keys (map_delete m k) = removeAll k (keys m)"
  by (induction m) (auto simp: map_delete_def keys_def)

lemma distinct_keys_map_delete: "distinct (keys m) \<Longrightarrow> distinct (keys (map_delete m k))"
  by (simp add: keys_map_delete distinct_removeAll)

lemma map_get_SomeD: "map_get m k = Some v \<Longrightarrow> (k, v) \<in> set m"
  by (simp add: map_get_def map_of_SomeD)

lemma map_has_iff_keys: "map_has m k \<longleftrightarrow> k \<in> set (keys m)"
  by (auto simp: map_has_def keys_def map_of_eq_None_iff)

lemma map_delete_distinct_remove1:
  "distinct (keys m) \<Longrightarrow> map_get m k = Some v \<Longrightarrow> map_delete m k = remove1 (k, v) m"
proof (induction m)
  case Nil
  then show ?case by (simp add: map_get_def)
next
  case (Cons e m)
  show ?case
  proof (cases "fst e = k")
    case True
    with Cons.prems have e: "e = (k, v)" by (cases e) (simp add: map_get_def)
    from Cons.prems True have "k \<notin> fst ` set m" by (simp add: keys_def)
    then have "filter (\<lambda>e. fst e \<noteq> k) m = m" by (auto simp: filter_id_conv)
    with e show ?thesis by (simp add: map_delete_def)
  next
    case False
    with Cons.prems have "map_get m k = Some v" "distinct (keys m)" "e \<noteq> (k, v)"
      by (auto simp: map_get_def keys_def)
    with Cons.IH False show ?thesis by (simp add: map_delete_def)
  qed
qed

lemma close_pages_of_snd:
  "snd (close_pages_of eng ctx es ps) =
     filter (\<lambda>e. fst e \<notin> set (closed_page_keys eng ctx es)) ps"
  by (induction es arbitrary: ps) (auto simp: map_delete_def intro: filter_cong)

lemma closed_page_keys_owned:
  "k \<in> set (closed_page_keys eng ctx es) \<Longrightarrow>
     \<exists>e \<in> set es. fst e = k \<and> page_context (snd e) = context_ref ctx
        \<and> page_ref (snd e) \<notin> set (page_close_throws eng)"
  by (induction es) (auto split: if_splits)

lemma close_pages_of_ok_iff:
  "fst (close_pages_of eng ctx es ps) = Inr () \<longleftrightarrow>
     (\<forall>e \<in> set es. page_context (snd e) = context_ref ctx \<longrightarrow>
         page_ref (snd e) \<notin> set (page_close_throws eng))"
  by (induction es arbitrary: ps) auto

lemma close_pages_of_ok_keys:
  "fst (close_pages_of eng ctx es ps) = Inr () \<Longrightarrow> e \<in> set es \<Longrightarrow>
     page_context (snd e) = context_ref ctx \<Longrightarrow> fst e \<in> set (closed_page_keys eng ctx es)"
  by (induction es arbitrary: ps) (auto split: if_splits)

lemma close_pages_of_err:
  "fst (close_pages_of eng ctx es ps) = Inl err \<Longrightarrow>
     \<exists>e \<in> set es. page_context (snd e) = context_ref ctx
        \<and> page_ref (snd e) \<in> set (page_close_throws eng) \<and> err = EngineError PageK (page_ref (snd e))"
  by (induction es arbitrary: ps) (auto split: if_splits)

lemma close_pages_of_subset: "set (snd (close_pages_of eng ctx es ps)) \<subseteq> set ps"
  by (simp add: close_pages_of_snd)

text \<open>After a completed page loop over the map itself no page of the context is left.\<close>

lemma close_pages_of_ok_none_left:
  assumes "fst (close_pages_of eng ctx ps ps) = Inr ()"
    and "e \<in> set (snd (close_pages_of eng ctx ps ps))"
  shows "page_context (snd e) \<noteq> context_ref ctx"
proof
  assume own: "page_context (snd e) = context_ref ctx"
  from assms(2) have "e \<in> set ps" and nk: "fst e \<notin> set (closed_page_keys eng ctx ps)"
    by (simp_all add: close_pages_of_snd)
  with assms(1) own have "fst e \<in> set (closed_page_keys eng ctx ps)"
    by (auto intro: close_pages_of_ok_keys)
  with nk show False by simp
qed

text \<open>With one entry per key, the page loop removes pages of the context only.\<close>

lemma close_pages_of_removed_owned:
  assumes "distinct (keys ps)" and "e \<in> set ps"
    and "e \<notin> set (snd (close_pages_of eng ctx ps ps))"
  shows "page_context (snd e) = context_ref ctx \<and> page_ref (snd e) \<notin> set (page_close_throws eng)"
proof -
  from assms(2,3) have "fst e \<in> set (closed_page_keys eng ctx ps)"
    by (simp add: close_pages_of_snd)
  then obtain e' where e': "e' \<in> set ps" "fst e' = fst e"
      "page_context (snd e') = context_ref ctx" "page_ref (snd e') \<notin> set (page_close_throws eng)"
    by (blast dest: closed_page_keys_owned)
  from assms(1) have "inj_on fst (set ps)" by (simp add: keys_def distinct_map)
  with e'(1,2) assms(2) have "e' = e" by (auto dest: inj_onD)
  with e' show ?thesis by simp
qed

lemma close_pages_of_distinct:
  "distinct (keys ps) \<Longrightarrow> distinct (keys (snd (close_pages_of eng ctx es ps)))"
  by (simp add: close_pages_of_snd keys_def distinct_map_filter)

lemma close_context_entry_browsers:
  "browsers (snd (close_context_entry eng cid ctx r)) = browsers r"
  by (simp add: close_context_entry_def split: prod.splits sum.splits)

lemma close_context_entry_pages:
  "pages (snd (close_context_entry eng cid ctx r)) = snd (close_pages_of eng ctx (pages r) (pages r))"
  by (simp add: close_context_entry_def split: prod.splits sum.splits)

lemma close_context_entry_contexts:
  "contexts (snd (close_context_entry eng cid ctx r)) =
     (if fst (close_context_entry eng cid ctx r) = Inr ()
      then map_delete (contexts r) cid else contexts r)"
  by (simp add: close_context_entry_def split: prod.splits sum.splits)

lemma close_context_entry_ok_iff:
  "fst (close_context_entry eng cid ctx r) = Inr () \<longleftrightarrow>
     fst (close_pages_of eng ctx (pages r) (pages r)) = Inr ()
     \<and> context_ref ctx \<notin> set (context_close_throws eng)"
  by (auto simp: close_context_entry_def split: prod.splits sum.splits)

lemma close_context_entry_err:
  assumes that: "fst (close_context_entry eng cid ctx r) = Inl err"
  shows "\<exists>k x. err = EngineError k x"
proof (cases "close_pages_of eng ctx (pages r) (pages r)")
  case (Pair res ps)
  show ?thesis
  proof (cases res)
    case (Inl err')
    with Pair have "fst (close_pages_of eng ctx (pages r) (pages r)) = Inl err'" by simp
    then have "\<exists>k x. err' = EngineError k x" by (blast dest: close_pages_of_err)
    moreover from that Pair Inl have "err = err'" by (simp add: close_context_entry_def)
    ultimately show ?thesis by simp
  next
    case (Inr u)
    with that Pair show ?thesis
      by (auto simp: close_context_entry_def split: if_splits)
  qed
qed

lemma close_context_entry_subset:
  "set (pages (snd (close_context_entry eng cid ctx r))) \<subseteq> set (pages r)"
  "set (contexts (snd (close_context_entry eng cid ctx r))) \<subseteq> set (contexts r)"
  using close_pages_of_subset[of eng ctx "pages r" "pages r"] map_delete_subset[of "contexts r" cid]
  by (auto simp: close_context_entry_pages close_context_entry_contexts)

lemma close_context_entry_wf:
  "wf_registry r \<Longrightarrow> wf_registry (snd (close_context_entry eng cid ctx r))"
  by (simp add: wf_registry_def close_context_entry_browsers close_context_entry_pages
      close_context_entry_contexts close_pages_of_distinct distinct_keys_map_delete)

lemma close_contexts_of_browsers:
  "browsers (snd (close_contexts_of eng b es r)) = browsers r"
proof (induction es arbitrary: r)
  case Nil
  show ?case by simp
next
  case (Cons e es)
  show ?case
  proof (cases "context_browser (snd e) = browser_ref b")
    case False
    then show ?thesis using Cons.IH by simp
  next
    case True
    obtain res r1 where c: "close_context_entry eng (fst e) (snd e) r = (res, r1)"
      by (cases "close_context_entry eng (fst e) (snd e) r")
    have b1: "browsers r1 = browsers r"
      using close_context_entry_browsers[of eng "fst e" "snd e" r] c by simp
    show ?thesis using True c b1 Cons.IH[of r1] by (cases res) simp_all
  qed
qed

lemma close_contexts_of_subset:
  "set (pages (snd (close_contexts_of eng b es r))) \<subseteq> set (pages r)
   \<and> set (contexts (snd (close_contexts_of eng b es r))) \<subseteq> set (contexts r)"
proof (induction es arbitrary: r)
  case Nil
  show ?case by simp
next
  case (Cons e es)
  show ?case
  proof (cases "context_browser (snd e) = browser_ref b")
    case False
    then show ?thesis using Cons.IH by simp
  next
    case True
    obtain res r1 where c: "close_context_entry eng (fst e) (snd e) r = (res, r1)"
      by (cases "close_context_entry eng (fst e) (snd e) r")
    have s1: "set (pages r1) \<subseteq> set (pages r)" "set (contexts r1) \<subseteq> set (contexts r)"
      using close_context_entry_subset[of eng "fst e" "snd e" r] c by simp_all
    show ?thesis
    proof (cases res)
      case (Inl err)
      with True c s1 show ?thesis by simp
    next
      case (Inr u)
      with True c have "close_contexts_of eng b (e # es) r = close_contexts_of eng b es r1" by simp
      with s1 Cons.IH[of r1] show ?thesis by auto
    qed
  qed
qed

lemma close_contexts_of_wf:
  "wf_registry r \<Longrightarrow> wf_registry (snd (close_contexts_of eng b es r))"
proof (induction es arbitrary: r)
  case Nil
  then show ?case by simp
next
  case (Cons e es)
  show ?case
  proof (cases "context_browser (snd e) = browser_ref b")
    case False
    then show ?thesis using Cons by simp
  next
    case True
    obtain res r1 where c: "close_context_entry eng (fst e) (snd e) r = (res, r1)"
      by (cases "close_context_entry eng (fst e) (snd e) r")
    have w1: "wf_registry r1"
      using close_context_entry_wf[OF Cons.prems, of eng "fst e" "snd e"] c by simp
    show ?thesis using True c w1 Cons.IH[of r1] by (cases res) simp_all
  qed
qed

lemma close_contexts_of_err:
  "fst (close_contexts_of eng b es r) = Inl err \<Longrightarrow> \<exists>k x. err = EngineError k x"
proof (induction es arbitrary: r)
  case Nil
  then show ?case by simp
next
  case (Cons e es)
  show ?case
  proof (cases "context_browser (snd e) = browser_ref b")
    case False
    then show ?thesis using Cons by simp
  next
    case True
    obtain res r1 where c: "close_context_entry eng (fst e) (snd e) r = (res, r1)"
      by (cases "close_context_entry eng (fst e) (snd e) r")
    show ?thesis
    proof (cases res)
      case (Inl err')
      with True c Cons.prems have "err = err'" by simp
      moreover from c Inl have "fst (close_context_entry eng (fst e) (snd e) r) = Inl err'" by simp
      ultimately show ?thesis by (auto dest: close_context_entry_err)
    next
      case (Inr u)
      with True c Cons.prems have "fst (close_contexts_of eng b es r1) = Inl err" by simp
      then show ?thesis by (rule Cons.IH)
    qed
  qed
qed

text \<open>A completed context loop: every visited context of the browser is gone, with its pages.\<close>

lemma close_contexts_of_ok:
  assumes "fst (close_contexts_of eng b es r) = Inr ()"
    and "e \<in> set es" and "context_browser (snd e) = browser_ref b"
  shows "fst e \<notin> set (keys (contexts (snd (close_contexts_of eng b es r))))
       \<and> (\<forall>p \<in> set (pages (snd (close_contexts_of eng b es r))).
             page_context (snd p) \<noteq> context_ref (snd e))"
  using assms
proof (induction es arbitrary: r)
  case Nil
  then show ?case by simp
next
  case (Cons x es)
  show ?case
  proof (cases "context_browser (snd x) = browser_ref b")
    case False
    with Cons.prems have "e \<in> set es" "fst (close_contexts_of eng b es r) = Inr ()" by auto
    with Cons.IH[of r] Cons.prems(3) False show ?thesis by simp
  next
    case True
    obtain res r1 where c: "close_context_entry eng (fst x) (snd x) r = (res, r1)"
      by (cases "close_context_entry eng (fst x) (snd x) r")
    from True c Cons.prems(1) have res: "res = Inr ()" by (cases res) simp_all
    with True c have eq: "close_contexts_of eng b (x # es) r = close_contexts_of eng b es r1"
      by simp
    with Cons.prems(1) have ok: "fst (close_contexts_of eng b es r1) = Inr ()" by simp
    show ?thesis
    proof (cases "e \<in> set es")
      case True
      with Cons.IH[OF ok _ Cons.prems(3)] eq show ?thesis by simp
    next
      case False
      with Cons.prems(2) have ex: "e = x" by simp
      from c res have f1: "fst (close_context_entry eng (fst x) (snd x) r) = Inr ()" by simp
      then have p_ok: "fst (close_pages_of eng (snd x) (pages r) (pages r)) = Inr ()"
        by (simp add: close_context_entry_ok_iff)
      have c1: "contexts r1 = map_delete (contexts r) (fst x)"
        using close_context_entry_contexts[of eng "fst x" "snd x" r] c res by simp
      have p1: "pages r1 = snd (close_pages_of eng (snd x) (pages r) (pages r))"
        using close_context_entry_pages[of eng "fst x" "snd x" r] c by simp
      have k1: "fst x \<notin> set (keys (contexts r1))"
        by (simp add: c1 keys_map_delete)
      have g1: "\<forall>p \<in> set (pages r1). page_context (snd p) \<noteq> context_ref (snd x)"
        using close_pages_of_ok_none_left[OF p_ok] p1 by simp
      from close_contexts_of_subset[of eng b es r1]
      have sub: "set (pages (snd (close_contexts_of eng b es r1))) \<subseteq> set (pages r1)"
        "set (contexts (snd (close_contexts_of eng b es r1))) \<subseteq> set (contexts r1)" by simp_all
      from sub(2) k1 have "fst x \<notin> set (keys (contexts (snd (close_contexts_of eng b es r1))))"
        by (auto simp: keys_def)
      moreover from sub(1) g1
      have "\<forall>p \<in> set (pages (snd (close_contexts_of eng b es r1))).
               page_context (snd p) \<noteq> context_ref (snd x)" by blast
      ultimately show ?thesis using eq ex by simp
    qed
  qed
qed

lemma distinct_keys_unique:
  "distinct (keys m) \<Longrightarrow> x \<in> set m \<Longrightarrow> y \<in> set m \<Longrightarrow> fst x = fst y \<Longrightarrow> x = y"
  by (auto simp: keys_def distinct_map dest: inj_onD)

lemma map_has_memD: "map_has m k \<Longrightarrow> \<exists>x \<in> set m. fst x = k"
  by (auto simp: map_has_iff_keys keys_def)

lemma not_map_has_delete: "\<not> map_has (map_delete m k) k"
  by (simp add: map_has_def map_get_map_delete_same[unfolded map_get_def])

text \<open>With one entry per key, the context loop removes descendants of the browser only.\<close>

lemma close_contexts_of_removed:
  assumes "distinct (keys (pages r))"
    and "\<forall>e \<in> set es. \<forall>x \<in> set (contexts r). fst x = fst e \<longrightarrow> x = e"
  shows "(\<forall>x \<in> set (contexts r). x \<notin> set (contexts (snd (close_contexts_of eng b es r))) \<longrightarrow>
            x \<in> set es \<and> context_browser (snd x) = browser_ref b)
       \<and> (\<forall>p \<in> set (pages r). p \<notin> set (pages (snd (close_contexts_of eng b es r))) \<longrightarrow>
            (\<exists>e \<in> set es. context_browser (snd e) = browser_ref b
                \<and> page_context (snd p) = context_ref (snd e)))"
  using assms
proof (induction es arbitrary: r)
  case Nil
  then show ?case by simp
next
  case (Cons x es)
  have uniq_tl: "\<forall>e \<in> set es. \<forall>y \<in> set (contexts r). fst y = fst e \<longrightarrow> y = e"
    using Cons.prems(2) by simp
  show ?case
  proof (cases "context_browser (snd x) = browser_ref b")
    case False
    with Cons.IH[OF Cons.prems(1) uniq_tl] show ?thesis by auto
  next
    case True
    obtain res r1 where c: "close_context_entry eng (fst x) (snd x) r = (res, r1)"
      by (cases "close_context_entry eng (fst x) (snd x) r")
    have p1: "pages r1 = snd (close_pages_of eng (snd x) (pages r) (pages r))"
      using close_context_entry_pages[of eng "fst x" "snd x" r] c by simp
    have c1: "contexts r1 = (if res = Inr () then map_delete (contexts r) (fst x) else contexts r)"
      using close_context_entry_contexts[of eng "fst x" "snd x" r] c by simp
    have step_ctx: "\<forall>y \<in> set (contexts r). y \<notin> set (contexts r1) \<longrightarrow> y = x"
      using Cons.prems(2) by (auto simp: c1 map_delete_def split: if_splits)
    have step_pg: "\<forall>p \<in> set (pages r). p \<notin> set (pages r1) \<longrightarrow>
                     page_context (snd p) = context_ref (snd x)"
      using close_pages_of_removed_owned[OF Cons.prems(1)] by (auto simp: p1)
    show ?thesis
    proof (cases res)
      case (Inl err)
      with True c have "snd (close_contexts_of eng b (x # es) r) = r1" by simp
      with step_ctx step_pg True show ?thesis by auto
    next
      case (Inr u)
      with True c have eq: "close_contexts_of eng b (x # es) r = close_contexts_of eng b es r1"
        by simp
      have d1: "distinct (keys (pages r1))"
        by (simp add: p1 close_pages_of_distinct Cons.prems(1))
      have sub: "set (contexts r1) \<subseteq> set (contexts r)"
        using close_context_entry_subset(2)[of eng "fst x" "snd x" r] c by simp
      have u1: "\<forall>e \<in> set es. \<forall>y \<in> set (contexts r1). fst y = fst e \<longrightarrow> y = e"
        using uniq_tl sub by blast
      note IH = Cons.IH[OF d1 u1]
      have A: "\<forall>y \<in> set (contexts r).
                 y \<notin> set (contexts (snd (close_contexts_of eng b es r1))) \<longrightarrow>
                 y \<in> set (x # es) \<and> context_browser (snd y) = browser_ref b"
      proof (intro ballI impI)
        fix y assume y: "y \<in> set (contexts r)"
          "y \<notin> set (contexts (snd (close_contexts_of eng b es r1)))"
        show "y \<in> set (x # es) \<and> context_browser (snd y) = browser_ref b"
        proof (cases "y \<in> set (contexts r1)")
          case True
          with IH y(2) show ?thesis by auto
        next
          case False
          with step_ctx y(1) have "y = x" by blast
          with \<open>context_browser (snd x) = browser_ref b\<close> show ?thesis by simp
        qed
      qed
      have B: "\<forall>p \<in> set (pages r).
                 p \<notin> set (pages (snd (close_contexts_of eng b es r1))) \<longrightarrow>
                 (\<exists>e \<in> set (x # es). context_browser (snd e) = browser_ref b
                    \<and> page_context (snd p) = context_ref (snd e))"
      proof (intro ballI impI)
        fix p assume p: "p \<in> set (pages r)"
          "p \<notin> set (pages (snd (close_contexts_of eng b es r1)))"
        show "\<exists>e \<in> set (x # es). context_browser (snd e) = browser_ref b
                \<and> page_context (snd p) = context_ref (snd e)"
        proof (cases "p \<in> set (pages r1)")
          case True
          with IH p(2) show ?thesis by auto
        next
          case False
          with step_pg p(1) have "page_context (snd p) = context_ref (snd x)" by blast
          with \<open>context_browser (snd x) = browser_ref b\<close> show ?thesis by auto
        qed
      qed
      from A B show ?thesis unfolding eq by blast
    qed
  qed
qed

subsection \<open>closeContext and closeBrowser as a whole\<close>

lemma closeContext_absent:
  "map_get (contexts r) cid = None \<Longrightarrow> closeContext eng r cid = (Inl (NotFound ContextK cid), r)"
  by (simp add: closeContext_def)

lemma closeContext_present:
  "map_get (contexts r) cid = Some ctx \<Longrightarrow>
     closeContext eng r cid = close_context_entry eng cid ctx r"
  by (simp add: closeContext_def)

lemma closeBrowser_absent:
  "map_get (browsers r) bid = None \<Longrightarrow> closeBrowser eng r bid = (Inl (NotFound BrowserK bid), r)"
  by (simp add: closeBrowser_def)

lemma closeBrowser_ok_iff:
  "map_get (browsers r) bid = Some b \<Longrightarrow>
     fst (closeBrowser eng r bid) = Inr () \<longleftrightarrow>
       fst (close_contexts_of eng b (contexts r) r) = Inr ()
       \<and> browser_ref b \<notin> set (browser_close_throws eng)"
  by (auto simp: closeBrowser_def split: prod.splits sum.splits)

lemma closeBrowser_pages:
  "map_get (browsers r) bid = Some b \<Longrightarrow>
     pages (snd (closeBrowser eng r bid)) = pages (snd (close_contexts_of eng b (contexts r) r))"
  by (auto simp: closeBrowser_def split: prod.splits sum.splits)

lemma closeBrowser_contexts:
  "map_get (browsers r) bid = Some b \<Longrightarrow>
     contexts (snd (closeBrowser eng r bid)) = contexts (snd (close_contexts_of eng b (contexts r) r))"
  by (auto simp: closeBrowser_def split: prod.splits sum.splits)

lemma closeBrowser_browsers:
  "browsers (snd (closeBrowser eng r bid)) =
     (if fst (closeBrowser eng r bid) = Inr () then map_delete (browsers r) bid else browsers r)"
proof (cases "map_get (browsers r) bid")
  case None
  then show ?thesis by (simp add: closeBrowser_absent)
next
  case (Some b)
  obtain res r1 where c: "close_contexts_of eng b (contexts r) r = (res, r1)"
    by (cases "close_contexts_of eng b (contexts r) r")
  have "browsers r1 = browsers r"
    using close_contexts_of_browsers[of eng b "contexts r" r] c by simp
  with Some c show ?thesis by (cases res) (simp_all add: closeBrowser_def)
qed

lemma closeBrowser_err:
  assumes "fst (closeBrowser eng r bid) = Inl err"
  shows "err = NotFound BrowserK bid \<and> map_get (browsers r) bid = None \<and> snd (closeBrowser eng r bid) = r
       \<or> (\<exists>k x. err = EngineError k x) \<and> map_get (browsers r) bid \<noteq> None"
proof (cases "map_get (browsers r) bid")
  case None
  with assms show ?thesis by (simp add: closeBrowser_absent)
next
  case (Some b)
  obtain res r1 where c: "close_contexts_of eng b (contexts r) r = (res, r1)"
    by (cases "close_contexts_of eng b (contexts r) r")
  show ?thesis
  proof (cases res)
    case (Inl err')
    with c have "fst (close_contexts_of eng b (contexts r) r) = Inl err'" by simp
    then have "\<exists>k x. err' = EngineError k x" by (rule close_contexts_of_err)
    moreover from assms Some c Inl have "err = err'" by (simp add: closeBrowser_def)
    ultimately show ?thesis using Some by simp
  next
    case (Inr u)
    with assms Some c show ?thesis by (auto simp: closeBrowser_def split: if_splits)
  qed
qed

lemma closeContext_err:
  assumes "fst (closeContext eng r cid) = Inl err"
  shows "err = NotFound ContextK cid \<and> map_get (contexts r) cid = None \<and> snd (closeContext eng r cid) = r
       \<or> (\<exists>k x. err = EngineError k x) \<and> map_get (contexts r) cid \<noteq> None"
proof (cases "map_get (contexts r) cid")
  case None
  with assms show ?thesis by (simp add: closeContext_absent)
next
  case (Some ctx)
  with assms have "fst (close_context_entry eng cid ctx r) = Inl err"
    by (simp add: closeContext_present)
  then have "\<exists>k x. err = EngineError k x" by (rule close_context_entry_err)
  with Some show ?thesis by simp
qed

lemma closePage_wf: "wf_registry r \<Longrightarrow> wf_registry (snd (closePage eng r pid))"
  by (auto simp: closePage_def wf_registry_def distinct_keys_map_delete split: option.splits)

lemma closeContext_wf: "wf_registry r \<Longrightarrow> wf_registry (snd (closeContext eng r cid))"
  by (cases "map_get (contexts r) cid")
     (simp_all add: closeContext_absent closeContext_present close_context_entry_wf)

lemma closeBrowser_wf:
  assumes "wf_registry r"
  shows "wf_registry (snd (closeBrowser eng r bid))"
proof (cases "map_get (browsers r) bid")
  case None
  with assms show ?thesis by (simp add: closeBrowser_absent)
next
  case (Some b)
  have w: "wf_registry (snd (close_contexts_of eng b (contexts r) r))"
    using assms by (rule close_contexts_of_wf)
  then have d: "distinct (keys (contexts (snd (closeBrowser eng r bid))))"
    "distinct (keys (pages (snd (closeBrowser eng r bid))))"
    using Some by (simp_all add: closeBrowser_contexts closeBrowser_pages wf_registry_def)
  from assms have "distinct (keys (browsers (snd (closeBrowser eng r bid))))"
    by (simp add: closeBrowser_browsers wf_registry_def distinct_keys_map_delete)
  with d show ?thesis by (simp add: wf_registry_def)
qed

lemma keys_map_set: "set (keys (map_set m k v)) = insert k (set (keys m))"
  by (induction m) (auto simp: keys_def)

lemma distinct_keys_map_set: "distinct (keys m) \<Longrightarrow> distinct (keys (map_set m k v))"
proof (induction m)
  case Nil
  show ?case by (simp add: keys_def)
next
  case (Cons e m)
  then have "distinct (keys m)" "fst e \<notin> set (keys m)" by (simp_all add: keys_def)
  with Cons.IH keys_map_set[of m k v] show ?case
    by (auto simp: keys_def)
qed

lemma map_has_map_set: "map_has (map_set m k v) k' \<longleftrightarrow> k' = k \<or> map_has m k'"
  by (simp add: map_has_iff_keys keys_map_set)

lemma launchBrowser_wf: "wf_registry r \<Longrightarrow> wf_registry (snd (launchBrowser l r t bid))"
  by (auto simp: launchBrowser_def wf_registry_def distinct_keys_map_set split: option.splits)

lemma createContext_wf: "wf_registry r \<Longrightarrow> wf_registry (snd (createContext l r bid cid))"
  by (auto simp: createContext_def wf_registry_def distinct_keys_map_set split: option.splits)

lemma createPage_wf: "wf_registry r \<Longrightarrow> wf_registry (snd (createPage l r cid pid))"
  by (auto simp: createPage_def wf_registry_def distinct_keys_map_set split: option.splits)

lemma empty_registry_wf: "wf_registry empty_registry"
  by (simp add: wf_registry_def empty_registry_def keys_def)

lemma map_delete_absent: "map_get m k = None \<Longrightarrow> map_delete m k = m"
  by (induction m) (auto simp: map_delete_def map_get_def split: if_splits)

lemma map_has_get: "map_has m k \<longleftrightarrow> (\<exists>v. map_get m k = Some v)"
  by (simp add: map_has_def map_get_def)

lemma pages_gone_by_key:
  assumes d: "distinct (keys ps)" and sub: "set ps' \<subseteq> set ps" and p: "p \<in> set ps"
    and none: "\<forall>q \<in> set ps'. page_context (snd q) \<noteq> c" and own: "page_context (snd p) = c"
  shows "\<not> map_has ps' (fst p)"
proof
  assume "map_has ps' (fst p)"
  then obtain q where q: "q \<in> set ps'" "fst q = fst p" by (blast dest: map_has_memD)
  with sub have "q \<in> set ps" by blast
  with d p q(2) have "q = p" by (blast intro: distinct_keys_unique)
  with q(1) none own show False by blast
qed

lemma closeContext_ok_removed:
  assumes wf: "wf_registry r" and got: "map_get (contexts r) cid = Some ctx"
    and ok: "fst (closeContext eng r cid) = Inr ()"
  shows "\<not> map_has (contexts (snd (closeContext eng r cid))) cid"
    and "\<forall>q \<in> set (pages (snd (closeContext eng r cid))). page_context (snd q) \<noteq> context_ref ctx"
    and "\<forall>p \<in> set (pages r). page_context (snd p) = context_ref ctx \<longrightarrow>
           \<not> map_has (pages (snd (closeContext eng r cid))) (fst p)"
proof -
  let ?r' = "snd (closeContext eng r cid)"
  from got have eq: "closeContext eng r cid = close_context_entry eng cid ctx r"
    by (rule closeContext_present)
  from ok eq have ok': "fst (close_context_entry eng cid ctx r) = Inr ()" by simp
  then have pok: "fst (close_pages_of eng ctx (pages r) (pages r)) = Inr ()"
    by (simp add: close_context_entry_ok_iff)
  have pg: "pages ?r' = snd (close_pages_of eng ctx (pages r) (pages r))"
    by (simp add: eq close_context_entry_pages)
  show "\<not> map_has (contexts ?r') cid"
    using ok' by (simp add: eq close_context_entry_contexts not_map_has_delete)
  show none: "\<forall>q \<in> set (pages ?r'). page_context (snd q) \<noteq> context_ref ctx"
    using close_pages_of_ok_none_left[OF pok] by (simp add: pg)
  from wf have d: "distinct (keys (pages r))" by (simp add: wf_registry_def)
  have sub: "set (pages ?r') \<subseteq> set (pages r)" by (simp add: pg close_pages_of_subset)
  show "\<forall>p \<in> set (pages r). page_context (snd p) = context_ref ctx \<longrightarrow>
           \<not> map_has (pages ?r') (fst p)"
    using pages_gone_by_key[OF d sub _ none] by blast
qed

lemma closeBrowser_ok_removed:
  assumes wf: "wf_registry r" and got: "map_get (browsers r) bid = Some b"
    and ok: "fst (closeBrowser eng r bid) = Inr ()"
    and c: "c \<in> set (contexts r)" and own: "context_browser (snd c) = browser_ref b"
  shows "\<not> map_has (browsers (snd (closeBrowser eng r bid))) bid"
    and "\<not> map_has (contexts (snd (closeBrowser eng r bid))) (fst c)"
    and "\<forall>q \<in> set (pages (snd (closeBrowser eng r bid))). page_context (snd q) \<noteq> context_ref (snd c)"
    and "\<forall>p \<in> set (pages r). page_context (snd p) = context_ref (snd c) \<longrightarrow>
           \<not> map_has (pages (snd (closeBrowser eng r bid))) (fst p)"
proof -
  let ?r' = "snd (closeBrowser eng r bid)"
  let ?l = "close_contexts_of eng b (contexts r) r"
  from ok got have lok: "fst ?l = Inr ()" by (simp add: closeBrowser_ok_iff)
  note fin = close_contexts_of_ok[OF lok c own]
  show "\<not> map_has (browsers ?r') bid"
    using ok by (simp add: closeBrowser_browsers not_map_has_delete)
  show "\<not> map_has (contexts ?r') (fst c)"
    using fin got by (simp add: closeBrowser_contexts map_has_iff_keys)
  show none: "\<forall>q \<in> set (pages ?r'). page_context (snd q) \<noteq> context_ref (snd c)"
    using fin got by (simp add: closeBrowser_pages)
  from wf have d: "distinct (keys (pages r))" by (simp add: wf_registry_def)
  have sub: "set (pages ?r') \<subseteq> set (pages r)"
    using close_contexts_of_subset[of eng b "contexts r" r] got by (simp add: closeBrowser_pages)
  show "\<forall>p \<in> set (pages r). page_context (snd p) = context_ref (snd c) \<longrightarrow>
           \<not> map_has (pages ?r') (fst p)"
    using pages_gone_by_key[OF d sub _ none] by blast
qed

lemma closeBrowser_ok_no_context_left:
  assumes wf: "wf_registry r" and got: "map_get (browsers r) bid = Some b"
    and ok: "fst (closeBrowser eng r bid) = Inr ()"
  shows "\<forall>c \<in> set (contexts (snd (closeBrowser eng r bid))). context_browser (snd c) \<noteq> browser_ref b"
proof
  fix c assume c': "c \<in> set (contexts (snd (closeBrowser eng r bid)))"
  have sub: "set (contexts (snd (closeBrowser eng r bid))) \<subseteq> set (contexts r)"
    using close_contexts_of_subset[of eng b "contexts r" r] got by (simp add: closeBrowser_contexts)
  with c' have c: "c \<in> set (contexts r)" by blast
  show "context_browser (snd c) \<noteq> browser_ref b"
  proof
    assume "context_browser (snd c) = browser_ref b"
    from closeBrowser_ok_removed(2)[OF wf got ok c this] c'
    show False by (auto simp: map_has_iff_keys keys_def)
  qed
qed

text \<open>When no native close throws, a close of a registered handle succeeds.\<close>

lemma close_contexts_of_quiet:
  assumes "page_close_throws eng = []" and "context_close_throws eng = []"
  shows "fst (close_contexts_of eng b es r) = Inr ()"
proof (induction es arbitrary: r)
  case Nil
  show ?case by simp
next
  case (Cons e es)
  have "fst (close_context_entry eng (fst e) (snd e) r) = Inr ()"
    using assms by (simp add: close_context_entry_ok_iff close_pages_of_ok_iff)
  then obtain r1 where "close_context_entry eng (fst e) (snd e) r = (Inr (), r1)"
    by (cases "close_context_entry eng (fst e) (snd e) r") simp
  with Cons.IH[of r1] Cons.IH[of r] show ?case by simp
qed

lemma closeBrowser_quiet:
  assumes "page_close_throws eng = []" "context_close_throws eng = []"
    "browser_close_throws eng = []" "map_has (browsers r) bid"
  shows "fst (closeBrowser eng r bid) = Inr ()"
proof -
  from assms(4) obtain b where "map_get (browsers r) bid = Some b" by (auto simp: map_has_get)
  then show ?thesis
    using assms(1-3) by (simp add: closeBrowser_ok_iff close_contexts_of_quiet)
qed

lemma closeContext_quiet:
  assumes "page_close_throws eng = []" "context_close_throws eng = []" "map_has (contexts r) cid"
  shows "fst (closeContext eng r cid) = Inr ()"
proof -
  from assms(3) obtain ctx where "map_get (contexts r) cid = Some ctx" by (auto simp: map_has_get)
  then show ?thesis
    using assms(1,2)
    by (simp add: closeContext_present close_context_entry_ok_iff close_pages_of_ok_iff)
qed

lemmas example_defs = example_registry_def quiet_engine_def first_page_fails_def
  second_page_fails_def

lemma example_registry_wf: "wf_registry example_registry"
  by (simp add: wf_registry_def example_registry_def keys_def)

text \<open>
  Claim C1 (cascade completeness). In a registry with one entry per key, a
  \<^verbatim>\<open>closeBrowser\<close> that returns leaves no entry for the browser id, for the id of any
  context whose \<^verbatim>\<open>browser()\<close> is that browser, or for the id of any page whose
  \<^verbatim>\<open>context()\<close> is one of those contexts, and no context of the browser remains under any
  id. A \<^verbatim>\<open>closeContext\<close> that returns leaves no entry for the context id or for the id
  of any page of that context, and no page of the context remains under any id. When no
  native close throws, the close of a registered browser or context does return.
\<close>

theorem cascade_completeness:
  assumes wf: "wf_registry r"
  shows "(\<forall>b. map_get (browsers r) browserId = Some b \<longrightarrow>
            fst (closeBrowser eng r browserId) = Inr () \<longrightarrow>
              \<not> map_has (browsers (snd (closeBrowser eng r browserId))) browserId
            \<and> (\<forall>c \<in> set (contexts r). context_browser (snd c) = browser_ref b \<longrightarrow>
                  \<not> map_has (contexts (snd (closeBrowser eng r browserId))) (fst c)
                \<and> (\<forall>p \<in> set (pages r). page_context (snd p) = context_ref (snd c) \<longrightarrow>
                      \<not> map_has (pages (snd (closeBrowser eng r browserId))) (fst p)))
            \<and> (\<forall>c \<in> set (contexts (snd (closeBrowser eng r browserId))).
                  context_browser (snd c) \<noteq> browser_ref b))
       \<and> (\<forall>ctx. map_get (contexts r) contextId = Some ctx \<longrightarrow>
            fst (closeContext eng r contextId) = Inr () \<longrightarrow>
              \<not> map_has (contexts (snd (closeContext eng r contextId))) contextId
            \<and> (\<forall>p \<in> set (pages r). page_context (snd p) = context_ref ctx \<longrightarrow>
                  \<not> map_has (pages (snd (closeContext eng r contextId))) (fst p))
            \<and> (\<forall>q \<in> set (pages (snd (closeContext eng r contextId))).
                  page_context (snd q) \<noteq> context_ref ctx))
       \<and> (page_close_throws eng = [] \<and> context_close_throws eng = []
            \<and> browser_close_throws eng = [] \<and> map_has (browsers r) browserId \<longrightarrow>
          fst (closeBrowser eng r browserId) = Inr ())
       \<and> (page_close_throws eng = [] \<and> context_close_throws eng = []
            \<and> map_has (contexts r) contextId \<longrightarrow>
          fst (closeContext eng r contextId) = Inr ())"
proof (intro conjI allI impI)
  fix b assume got: "map_get (browsers r) browserId = Some b"
    and ok: "fst (closeBrowser eng r browserId) = Inr ()"
  show "\<not> map_has (browsers (snd (closeBrowser eng r browserId))) browserId"
    using ok by (simp add: closeBrowser_browsers not_map_has_delete)
  show "\<forall>c \<in> set (contexts r). context_browser (snd c) = browser_ref b \<longrightarrow>
          \<not> map_has (contexts (snd (closeBrowser eng r browserId))) (fst c)
        \<and> (\<forall>p \<in> set (pages r). page_context (snd p) = context_ref (snd c) \<longrightarrow>
              \<not> map_has (pages (snd (closeBrowser eng r browserId))) (fst p))"
    using closeBrowser_ok_removed(2,4)[OF wf got ok] by blast
  show "\<forall>c \<in> set (contexts (snd (closeBrowser eng r browserId))).
          context_browser (snd c) \<noteq> browser_ref b"
    using wf got ok by (rule closeBrowser_ok_no_context_left)
next
  fix ctx assume got: "map_get (contexts r) contextId = Some ctx"
    and ok: "fst (closeContext eng r contextId) = Inr ()"
  show "\<not> map_has (contexts (snd (closeContext eng r contextId))) contextId"
    using wf got ok by (rule closeContext_ok_removed(1))
  show "\<forall>p \<in> set (pages r). page_context (snd p) = context_ref ctx \<longrightarrow>
          \<not> map_has (pages (snd (closeContext eng r contextId))) (fst p)"
    using wf got ok by (rule closeContext_ok_removed(3))
  show "\<forall>q \<in> set (pages (snd (closeContext eng r contextId))).
          page_context (snd q) \<noteq> context_ref ctx"
    using wf got ok by (rule closeContext_ok_removed(2))
next
  assume "page_close_throws eng = [] \<and> context_close_throws eng = []
            \<and> browser_close_throws eng = [] \<and> map_has (browsers r) browserId"
  then show "fst (closeBrowser eng r browserId) = Inr ()"
    by (simp add: closeBrowser_quiet)
next
  assume "page_close_throws eng = [] \<and> context_close_throws eng = []
            \<and> map_has (contexts r) contextId"
  then show "fst (closeContext eng r contextId) = Inr ()"
    by (simp add: closeContext_quiet)
qed

lemma ex_closeBrowser: "closeBrowser quiet_engine example_registry ''b1'' = (Inr (), empty_registry)"
  by (simp add: closeBrowser_def close_context_entry_def map_get_def map_delete_def
      example_defs empty_registry_def)

lemma ex_closeContext:
  "closeContext quiet_engine example_registry ''c1'' =
     (Inr (), \<lparr>browsers = [(''b1'', Browser 1 Chromium)], contexts = [], pages = []\<rparr>)"
  by (simp add: closeContext_def close_context_entry_def map_get_def map_delete_def
      example_defs)

theorem cascade_completeness_witness:
  "wf_registry example_registry
   \<and> map_get (browsers example_registry) ''b1'' = Some (Browser 1 Chromium)
   \<and> fst (closeBrowser quiet_engine example_registry ''b1'') = Inr ()
   \<and> (''c1'', BrowserContext 2 1) \<in> set (contexts example_registry)
   \<and> (''p2'', Page 4 2) \<in> set (pages example_registry)
   \<and> \<not> map_has (browsers (snd (closeBrowser quiet_engine example_registry ''b1''))) ''b1''
   \<and> \<not> map_has (contexts (snd (closeBrowser quiet_engine example_registry ''b1''))) ''c1''
   \<and> \<not> map_has (pages (snd (closeBrowser quiet_engine example_registry ''b1''))) ''p2''
   \<and> map_get (contexts example_registry) ''c1'' = Some (BrowserContext 2 1)
   \<and> fst (closeContext quiet_engine example_registry ''c1'') = Inr ()
   \<and> \<not> map_has (contexts (snd (closeContext quiet_engine example_registry ''c1''))) ''c1''
   \<and> \<not> map_has (pages (snd (closeContext quiet_engine example_registry ''c1''))) ''p2''"
  using cascade_completeness[OF example_registry_wf, of "''b1''" quiet_engine "''c1''"]
  by (simp add: ex_closeBrowser ex_closeContext example_registry_wf empty_registry_def
      map_has_def map_get_def)
     (simp add: example_registry_def)

text \<open>
  Claim C10 (frame property of \<^verbatim>\<open>closePage\<close>). For a registry that holds the page id,
  closing the page leaves the browsers map, the contexts map and every other page entry
  as they were. When the native close succeeds the call succeeds and exactly the one
  entry of that id is gone from the pages map; when it throws, the registry is untouched.
\<close>

theorem closePage_frame:
  assumes wf: "wf_registry r" and got: "map_get (pages r) pageId = Some page"
  shows "browsers (snd (closePage eng r pageId)) = browsers r
       \<and> contexts (snd (closePage eng r pageId)) = contexts r
       \<and> (\<forall>k. k \<noteq> pageId \<longrightarrow>
             map_get (pages (snd (closePage eng r pageId))) k = map_get (pages r) k)
       \<and> (if page_ref page \<in> set (page_close_throws eng)
          then closePage eng r pageId = (Inl (EngineError PageK (page_ref page)), r)
          else fst (closePage eng r pageId) = Inr ()
             \<and> pages (snd (closePage eng r pageId)) = remove1 (pageId, page) (pages r)
             \<and> length (pages (snd (closePage eng r pageId))) + 1 = length (pages r)
             \<and> \<not> map_has (pages (snd (closePage eng r pageId))) pageId)"
proof -
  from wf have d: "distinct (keys (pages r))" by (simp add: wf_registry_def)
  have mem: "(pageId, page) \<in> set (pages r)" using got by (rule map_get_SomeD)
  have del: "map_delete (pages r) pageId = remove1 (pageId, page) (pages r)"
    using d got by (rule map_delete_distinct_remove1)
  have len: "length (remove1 (pageId, page) (pages r)) + 1 = length (pages r)"
    using mem by (simp add: length_remove1) (cases "pages r"; simp)
  show ?thesis
    using got del len
    by (simp add: closePage_def map_get_map_delete_other map_has_def
        map_get_map_delete_same[unfolded map_get_def] flip: del)
qed

theorem closePage_frame_witness:
  "wf_registry example_registry
   \<and> map_get (pages example_registry) ''p1'' = Some (Page 3 2)
   \<and> browsers (snd (closePage quiet_engine example_registry ''p1'')) = browsers example_registry
   \<and> contexts (snd (closePage quiet_engine example_registry ''p1'')) = contexts example_registry
   \<and> map_get (pages (snd (closePage quiet_engine example_registry ''p1''))) ''p2''
       = Some (Page 4 2)
   \<and> fst (closePage quiet_engine example_registry ''p1'') = Inr ()
   \<and> pages (snd (closePage quiet_engine example_registry ''p1'')) = [(''p2'', Page 4 2)]
   \<and> closePage first_page_fails example_registry ''p1''
       = (Inl (EngineError PageK 3), example_registry)"
proof -
  have got: "map_get (pages example_registry) ''p1'' = Some (Page 3 2)"
    by (simp add: example_registry_def map_get_def)
  have p2: "map_get (pages example_registry) ''p2'' = Some (Page 4 2)"
    by (simp add: example_registry_def map_get_def)
  have rm: "remove1 (''p1'', Page 3 2) (pages example_registry) = [(''p2'', Page 4 2)]"
    by (simp add: example_registry_def)
  show ?thesis
    using closePage_frame[OF example_registry_wf got, of quiet_engine]
      closePage_frame[OF example_registry_wf got, of first_page_fails]
    by (simp add: example_registry_wf got p2 rm quiet_engine_def first_page_fails_def)
       (simp add: map_get_def)
qed

lemma closeContext_frame:
  "browsers (snd (closeContext eng r cid)) = browsers r"
  "set (pages (snd (closeContext eng r cid))) \<subseteq> set (pages r)"
  "contexts (snd (closeContext eng r cid)) =
     (if fst (closeContext eng r cid) = Inr () then map_delete (contexts r) cid else contexts r)"
  by (cases "map_get (contexts r) cid";
      simp add: closeContext_absent closeContext_present close_context_entry_browsers
        close_context_entry_subset close_context_entry_contexts)+

lemma closeContext_removed_pages:
  assumes "wf_registry r" and "map_get (contexts r) cid = Some ctx"
    and "p \<in> set (pages r)" and "p \<notin> set (pages (snd (closeContext eng r cid)))"
  shows "page_context (snd p) = context_ref ctx \<and> page_ref (snd p) \<notin> set (page_close_throws eng)"
proof -
  from assms(1) have d: "distinct (keys (pages r))" by (simp add: wf_registry_def)
  from assms(2,4) have "p \<notin> set (snd (close_pages_of eng ctx (pages r) (pages r)))"
    by (simp add: closeContext_present close_context_entry_pages)
  with d assms(3) show ?thesis by (rule close_pages_of_removed_owned)
qed

lemma closeBrowser_frame:
  "set (pages (snd (closeBrowser eng r bid))) \<subseteq> set (pages r)"
  "set (contexts (snd (closeBrowser eng r bid))) \<subseteq> set (contexts r)"
proof -
  show "set (pages (snd (closeBrowser eng r bid))) \<subseteq> set (pages r)"
  proof (cases "map_get (browsers r) bid")
    case None
    then show ?thesis by (simp add: closeBrowser_absent)
  next
    case (Some b)
    then show ?thesis
      using close_contexts_of_subset[of eng b "contexts r" r] by (simp add: closeBrowser_pages)
  qed
  show "set (contexts (snd (closeBrowser eng r bid))) \<subseteq> set (contexts r)"
  proof (cases "map_get (browsers r) bid")
    case None
    then show ?thesis by (simp add: closeBrowser_absent)
  next
    case (Some b)
    then show ?thesis
      using close_contexts_of_subset[of eng b "contexts r" r] by (simp add: closeBrowser_contexts)
  qed
qed

lemma closeBrowser_removed:
  assumes wf: "wf_registry r" and got: "map_get (browsers r) bid = Some b"
  shows "\<forall>c \<in> set (contexts r). c \<notin> set (contexts (snd (closeBrowser eng r bid))) \<longrightarrow>
           context_browser (snd c) = browser_ref b"
    and "\<forall>p \<in> set (pages r). p \<notin> set (pages (snd (closeBrowser eng r bid))) \<longrightarrow>
           (\<exists>c \<in> set (contexts r). context_browser (snd c) = browser_ref b
               \<and> page_context (snd p) = context_ref (snd c))"
proof -
  from wf have d: "distinct (keys (pages r))" and dc: "distinct (keys (contexts r))"
    by (simp_all add: wf_registry_def)
  from dc have u: "\<forall>e \<in> set (contexts r). \<forall>x \<in> set (contexts r). fst x = fst e \<longrightarrow> x = e"
    by (blast intro: distinct_keys_unique)
  note R = close_contexts_of_removed[OF d u, of eng b]
  show "\<forall>c \<in> set (contexts r). c \<notin> set (contexts (snd (closeBrowser eng r bid))) \<longrightarrow>
           context_browser (snd c) = browser_ref b"
    using R got by (simp add: closeBrowser_contexts)
  show "\<forall>p \<in> set (pages r). p \<notin> set (pages (snd (closeBrowser eng r bid))) \<longrightarrow>
           (\<exists>c \<in> set (contexts r). context_browser (snd c) = browser_ref b
               \<and> page_context (snd p) = context_ref (snd c))"
    using R got by (simp add: closeBrowser_pages)
qed

lemma closePage_outcome:
  "fst (closePage eng r pid) = Inr () \<and> \<not> map_has (pages (snd (closePage eng r pid))) pid
   \<or> (\<exists>err. fst (closePage eng r pid) = Inl err) \<and> snd (closePage eng r pid) = r"
  by (simp add: closePage_def not_map_has_delete split: option.splits)

subsection \<open>The exact outcome of a cascade\<close>

lemma filter_keys_of:
  assumes "distinct (keys ps)" and "set S \<subseteq> set ps"
  shows "filter (\<lambda>e. fst e \<notin> fst ` {x \<in> set S. P x}) ps = filter (\<lambda>e. \<not> (e \<in> set S \<and> P e)) ps"
proof (rule filter_cong[OF refl])
  fix e assume e: "e \<in> set ps"
  show "(fst e \<notin> fst ` {x \<in> set S. P x}) = (\<not> (e \<in> set S \<and> P e))"
  proof
    assume "fst e \<notin> fst ` {x \<in> set S. P x}"
    then show "\<not> (e \<in> set S \<and> P e)" by blast
  next
    assume n: "\<not> (e \<in> set S \<and> P e)"
    show "fst e \<notin> fst ` {x \<in> set S. P x}"
    proof
      assume "fst e \<in> fst ` {x \<in> set S. P x}"
      then obtain x where x: "x \<in> set S" "P x" "fst x = fst e" by auto
      with assms(2) have "x \<in> set ps" by blast
      with assms(1) e x(3) have "x = e" by (blast intro: distinct_keys_unique)
      with x n show False by simp
    qed
  qed
qed

lemma filter_prefix_keys:
  assumes "distinct (keys (pre @ rest))"
  shows "filter (\<lambda>e. fst e \<notin> fst ` {x \<in> set pre. P x}) (pre @ rest) = filter (\<lambda>e. \<not> P e) pre @ rest"
proof -
  have "filter (\<lambda>e. fst e \<notin> fst ` {x \<in> set pre. P x}) (pre @ rest)
        = filter (\<lambda>e. \<not> (e \<in> set pre \<and> P e)) (pre @ rest)"
    using assms by (intro filter_keys_of) auto
  also have "\<dots> = filter (\<lambda>e. \<not> (e \<in> set pre \<and> P e)) pre @ filter (\<lambda>e. \<not> (e \<in> set pre \<and> P e)) rest"
    by simp
  also have "filter (\<lambda>e. \<not> (e \<in> set pre \<and> P e)) pre = filter (\<lambda>e. \<not> P e) pre"
    by (rule filter_cong) auto
  also have "filter (\<lambda>e. \<not> (e \<in> set pre \<and> P e)) rest = rest"
  proof -
    have "\<forall>e \<in> set rest. e \<notin> set pre"
      using assms by (auto simp: keys_def)
    then show ?thesis by (auto simp: filter_id_conv)
  qed
  finally show ?thesis .
qed

lemma close_pages_of_stop_gen:
  assumes "page_of ctx q" "page_throws eng q"
    and "\<forall>e \<in> set pre. page_of ctx e \<longrightarrow> \<not> page_throws eng e"
  shows "close_pages_of eng ctx (pre @ q # post) ps =
           (Inl (EngineError PageK (page_ref (snd q))),
            filter (\<lambda>e. fst e \<notin> fst ` {x \<in> set pre. page_of ctx x}) ps)"
  using assms(3)
proof (induction pre arbitrary: ps)
  case Nil
  with assms(1,2) show ?case by (simp add: page_of_def page_throws_def)
next
  case (Cons x pre)
  show ?case
  proof (cases "page_of ctx x")
    case False
    then have "{y \<in> set (x # pre). page_of ctx y} = {y \<in> set pre. page_of ctx y}" by auto
    with False Cons show ?thesis by (simp add: page_of_def)
  next
    case True
    with Cons.prems have nt: "\<not> page_throws eng x" by simp
    have s: "{y \<in> set (x # pre). page_of ctx y} = insert x {y \<in> set pre. page_of ctx y}"
      using True by auto
    have "close_pages_of eng ctx ((x # pre) @ q # post) ps =
            close_pages_of eng ctx (pre @ q # post) (map_delete ps (fst x))"
      using True nt by (simp add: page_of_def page_throws_def)
    also have "\<dots> = (Inl (EngineError PageK (page_ref (snd q))),
            filter (\<lambda>e. fst e \<notin> fst ` {x \<in> set pre. page_of ctx x}) (map_delete ps (fst x)))"
      using Cons.prems by (intro Cons.IH) simp
    also have "filter (\<lambda>e. fst e \<notin> fst ` {x \<in> set pre. page_of ctx x}) (map_delete ps (fst x))
               = filter (\<lambda>e. fst e \<notin> fst ` {y \<in> set (x # pre). page_of ctx y}) ps"
      unfolding s map_delete_def filter_filter by (rule filter_cong) auto
    finally show ?thesis .
  qed
qed

lemma close_pages_of_done_gen:
  assumes "\<forall>e \<in> set es. page_of ctx e \<longrightarrow> \<not> page_throws eng e"
  shows "close_pages_of eng ctx es ps =
           (Inr (), filter (\<lambda>e. fst e \<notin> fst ` {x \<in> set es. page_of ctx x}) ps)"
  using assms
proof (induction es arbitrary: ps)
  case Nil
  show ?case by simp
next
  case (Cons x es)
  show ?case
  proof (cases "page_of ctx x")
    case False
    then have "{y \<in> set (x # es). page_of ctx y} = {y \<in> set es. page_of ctx y}" by auto
    with False Cons show ?thesis by (simp add: page_of_def)
  next
    case True
    with Cons.prems have nt: "\<not> page_throws eng x" by simp
    have s: "{y \<in> set (x # es). page_of ctx y} = insert x {y \<in> set es. page_of ctx y}"
      using True by auto
    have "close_pages_of eng ctx (x # es) ps = close_pages_of eng ctx es (map_delete ps (fst x))"
      using True nt by (simp add: page_of_def page_throws_def)
    also have "\<dots> = (Inr (),
            filter (\<lambda>e. fst e \<notin> fst ` {x \<in> set es. page_of ctx x}) (map_delete ps (fst x)))"
      using Cons.prems by (intro Cons.IH) simp
    also have "filter (\<lambda>e. fst e \<notin> fst ` {x \<in> set es. page_of ctx x}) (map_delete ps (fst x))
               = filter (\<lambda>e. fst e \<notin> fst ` {y \<in> set (x # es). page_of ctx y}) ps"
      unfolding s map_delete_def filter_filter by (rule filter_cong) auto
    finally show ?thesis .
  qed
qed

lemma close_pages_of_stop:
  assumes "distinct (keys (pre @ q # post))" "page_of ctx q" "page_throws eng q"
    and "\<forall>e \<in> set pre. page_of ctx e \<longrightarrow> \<not> page_throws eng e"
  shows "close_pages_of eng ctx (pre @ q # post) (pre @ q # post) =
           (Inl (EngineError PageK (page_ref (snd q))),
            filter (\<lambda>e. \<not> page_of ctx e) pre @ q # post)"
  using close_pages_of_stop_gen[OF assms(2,3,4), of post "pre @ q # post"]
    filter_prefix_keys[OF assms(1), of "page_of ctx"]
  by simp

lemma close_pages_of_done:
  assumes "distinct (keys ps)"
    and "\<forall>e \<in> set ps. page_of ctx e \<longrightarrow> \<not> page_throws eng e"
  shows "close_pages_of eng ctx ps ps = (Inr (), filter (\<lambda>e. \<not> page_of ctx e) ps)"
proof -
  have "filter (\<lambda>e. fst e \<notin> fst ` {x \<in> set ps. page_of ctx x}) ps
          = filter (\<lambda>e. \<not> (e \<in> set ps \<and> page_of ctx e)) ps"
    using assms(1) by (intro filter_keys_of) auto
  also have "\<dots> = filter (\<lambda>e. \<not> page_of ctx e) ps" by (rule filter_cong) auto
  finally show ?thesis using close_pages_of_done_gen[OF assms(2), of ps] by simp
qed

lemma close_context_entry_clean:
  assumes "distinct (keys (pages r))" "closes_cleanly eng r ctx"
  shows "close_context_entry eng cid ctx r =
           (Inr (), r\<lparr>pages := filter (\<lambda>p. \<not> page_of ctx p) (pages r),
                      contexts := map_delete (contexts r) cid\<rparr>)"
proof -
  from assms(2) have "\<forall>e \<in> set (pages r). page_of ctx e \<longrightarrow> \<not> page_throws eng e"
    and "context_ref ctx \<notin> set (context_close_throws eng)"
    by (simp_all add: closes_cleanly_def)
  with close_pages_of_done[OF assms(1), of ctx eng] show ?thesis
    by (simp add: close_context_entry_def)
qed

lemma close_context_entry_page_throws:
  assumes "distinct (keys (pages r))" "pages r = pre @ q # post"
    "page_of ctx q" "page_throws eng q"
    "\<forall>e \<in> set pre. page_of ctx e \<longrightarrow> \<not> page_throws eng e"
  shows "close_context_entry eng cid ctx r =
           (Inl (EngineError PageK (page_ref (snd q))),
            r\<lparr>pages := filter (\<lambda>p. \<not> page_of ctx p) pre @ q # post\<rparr>)"
  using close_pages_of_stop[OF assms(1)[unfolded assms(2)] assms(3,4,5)]
  by (simp add: close_context_entry_def assms(2))

lemma close_context_entry_context_throws:
  assumes "distinct (keys (pages r))"
    "\<forall>e \<in> set (pages r). page_of ctx e \<longrightarrow> \<not> page_throws eng e"
    "context_ref ctx \<in> set (context_close_throws eng)"
  shows "close_context_entry eng cid ctx r =
           (Inl (EngineError ContextK (context_ref ctx)),
            r\<lparr>pages := filter (\<lambda>p. \<not> page_of ctx p) (pages r)\<rparr>)"
  using close_pages_of_done[OF assms(1,2)] assms(3)
  by (simp add: close_context_entry_def)

text \<open>
  The context loop over a prefix of contexts that all close cleanly: the contexts of the
  browser among them are gone, with their pages.
\<close>

lemma close_contexts_of_prefix:
  assumes "distinct (keys (pages r))"
    and "\<forall>x \<in> set cpre. context_of b x \<longrightarrow> closes_cleanly eng r (snd x)"
  shows "close_contexts_of eng b (cpre @ rest) r =
           close_contexts_of eng b rest
             (r\<lparr>pages := filter (\<lambda>p. \<not> (\<exists>x \<in> set cpre. context_of b x \<and> page_of (snd x) p)) (pages r),
                contexts := filter (\<lambda>e. fst e \<notin> fst ` {x \<in> set cpre. context_of b x}) (contexts r)\<rparr>)"
  using assms
proof (induction cpre arbitrary: r)
  case Nil
  show ?case by simp
next
  case (Cons x cpre)
  show ?case
  proof (cases "context_of b x")
    case False
    then have "{y \<in> set (x # cpre). context_of b y} = {y \<in> set cpre. context_of b y}"
      and "\<And>p. (\<exists>y \<in> set (x # cpre). context_of b y \<and> page_of (snd y) p)
              = (\<exists>y \<in> set cpre. context_of b y \<and> page_of (snd y) p)" by auto
    moreover have "close_contexts_of eng b ((x # cpre) @ rest) r = close_contexts_of eng b (cpre @ rest) r"
      using False by (simp add: context_of_def)
    ultimately show ?thesis using Cons.IH[OF Cons.prems(1)] Cons.prems(2) by simp
  next
    case True
    with Cons.prems(2) have cl: "closes_cleanly eng r (snd x)" by simp
    let ?r1 = "r\<lparr>pages := filter (\<lambda>p. \<not> page_of (snd x) p) (pages r),
                   contexts := map_delete (contexts r) (fst x)\<rparr>"
    have e: "close_context_entry eng (fst x) (snd x) r = (Inr (), ?r1)"
      using Cons.prems(1) cl by (rule close_context_entry_clean)
    have d1: "distinct (keys (pages ?r1))"
      using Cons.prems(1) by (simp add: keys_def distinct_map_filter)
    have c1: "\<forall>y \<in> set cpre. context_of b y \<longrightarrow> closes_cleanly eng ?r1 (snd y)"
      using Cons.prems(2) by (auto simp: closes_cleanly_def)
    have "close_contexts_of eng b ((x # cpre) @ rest) r = close_contexts_of eng b (cpre @ rest) ?r1"
      using True e by (simp add: context_of_def)
    also have "\<dots> = close_contexts_of eng b rest
             (?r1\<lparr>pages := filter (\<lambda>p. \<not> (\<exists>x \<in> set cpre. context_of b x \<and> page_of (snd x) p)) (pages ?r1),
                contexts := filter (\<lambda>e. fst e \<notin> fst ` {x \<in> set cpre. context_of b x}) (contexts ?r1)\<rparr>)"
      using d1 c1 by (rule Cons.IH)
    also have "filter (\<lambda>p. \<not> (\<exists>x \<in> set cpre. context_of b x \<and> page_of (snd x) p)) (pages ?r1)
             = filter (\<lambda>p. \<not> (\<exists>y \<in> set (x # cpre). context_of b y \<and> page_of (snd y) p)) (pages r)"
      using True by (auto simp: filter_filter intro!: filter_cong)
    also have "filter (\<lambda>e. fst e \<notin> fst ` {x \<in> set cpre. context_of b x}) (contexts ?r1)
             = filter (\<lambda>e. fst e \<notin> fst ` {y \<in> set (x # cpre). context_of b y}) (contexts r)"
      using True by (auto simp: map_delete_def filter_filter intro!: filter_cong)
    finally show ?thesis by simp
  qed
qed

lemma close_context_entry_ok_clean:
  "fst (close_context_entry eng cid ctx r) = Inr () \<longleftrightarrow> closes_cleanly eng r ctx"
  by (simp add: close_context_entry_ok_iff close_pages_of_ok_iff closes_cleanly_def
      page_of_def page_throws_def)

lemma map_get_middle:
  assumes "distinct (keys (xs @ c # ys))"
  shows "map_get (xs @ c # ys) (fst c) = Some (snd c)"
proof -
  from assms have "fst c \<notin> fst ` set xs" by (auto simp: keys_def)
  then have "map_of xs (fst c) = None" by (simp add: map_of_eq_None_iff)
  then show ?thesis by (cases c) (simp add: map_get_def map_add_def)
qed

lemma wf_registry_pages_update:
  "wf_registry r \<Longrightarrow> distinct (keys ps) \<Longrightarrow> distinct (keys cs) \<Longrightarrow>
     wf_registry (r\<lparr>pages := ps, contexts := cs\<rparr>)"
  by (simp add: wf_registry_def)

text \<open>What is left of the browser's descendants when all its contexts have closed.\<close>

lemma closeBrowser_clean:
  assumes wf: "wf_registry r" and got: "map_get (browsers r) bid = Some b"
    and cl: "\<forall>c \<in> set (contexts r). context_of b c \<longrightarrow> closes_cleanly eng r (snd c)"
  shows "closeBrowser eng r bid =
     (if browser_ref b \<in> set (browser_close_throws eng)
      then (Inl (EngineError BrowserK (browser_ref b)),
            r\<lparr>pages := filter (\<lambda>p. \<not> (\<exists>c \<in> set (contexts r). context_of b c \<and> page_of (snd c) p)) (pages r),
               contexts := filter (\<lambda>c. \<not> context_of b c) (contexts r)\<rparr>)
      else (Inr (),
            r\<lparr>pages := filter (\<lambda>p. \<not> (\<exists>c \<in> set (contexts r). context_of b c \<and> page_of (snd c) p)) (pages r),
               contexts := filter (\<lambda>c. \<not> context_of b c) (contexts r),
               browsers := map_delete (browsers r) bid\<rparr>))"
proof -
  from wf have dp: "distinct (keys (pages r))" and dc: "distinct (keys (contexts r))"
    by (simp_all add: wf_registry_def)
  have k: "filter (\<lambda>e. fst e \<notin> fst ` {x \<in> set (contexts r). context_of b x}) (contexts r)
           = filter (\<lambda>c. \<not> context_of b c) (contexts r)"
    using filter_prefix_keys[of "contexts r" "[]" "context_of b"] dc by simp
  have "close_contexts_of eng b (contexts r) r =
     (Inr (), r\<lparr>pages := filter (\<lambda>p. \<not> (\<exists>c \<in> set (contexts r). context_of b c \<and> page_of (snd c) p)) (pages r),
               contexts := filter (\<lambda>c. \<not> context_of b c) (contexts r)\<rparr>)"
    using close_contexts_of_prefix[OF dp cl, of "[]"] by (simp add: k)
  with got show ?thesis by (simp add: closeBrowser_def)
qed

text \<open>
  The cascade of a browser stops at the first of its contexts that does not close
  cleanly: the outcome is that of closing this context in the registry from which the
  browser's earlier contexts and their pages are gone.
\<close>

lemma closeBrowser_stops:
  assumes wf: "wf_registry r" and got: "map_get (browsers r) bid = Some b"
    and split: "contexts r = cpre @ c # cpost"
    and cl: "\<forall>x \<in> set cpre. context_of b x \<longrightarrow> closes_cleanly eng r (snd x)"
    and own: "context_of b c" and bad: "\<not> closes_cleanly eng r (snd c)"
  shows "closeBrowser eng r bid =
           closeContext eng
             (r\<lparr>pages := filter (\<lambda>p. \<not> (\<exists>x \<in> set cpre. context_of b x \<and> page_of (snd x) p)) (pages r),
                contexts := filter (\<lambda>x. \<not> context_of b x) cpre @ c # cpost\<rparr>) (fst c)"
    and "\<exists>err. fst (closeBrowser eng r bid) = Inl err"
proof -
  let ?ps = "filter (\<lambda>p. \<not> (\<exists>x \<in> set cpre. context_of b x \<and> page_of (snd x) p)) (pages r)"
  let ?cs = "filter (\<lambda>x. \<not> context_of b x) cpre @ c # cpost"
  let ?r1 = "r\<lparr>pages := ?ps, contexts := ?cs\<rparr>"
  from wf have dp: "distinct (keys (pages r))" and dc: "distinct (keys (contexts r))"
    by (simp_all add: wf_registry_def)
  have k: "filter (\<lambda>e. fst e \<notin> fst ` {x \<in> set cpre. context_of b x}) (contexts r) = ?cs"
    using filter_prefix_keys[of cpre "c # cpost" "context_of b"] dc by (simp add: split)
  have "close_contexts_of eng b (contexts r) r = close_contexts_of eng b (cpre @ c # cpost) r"
    by (simp only: split)
  also have "\<dots> = close_contexts_of eng b (c # cpost)
      (r\<lparr>pages := ?ps,
         contexts := filter (\<lambda>e. fst e \<notin> fst ` {x \<in> set cpre. context_of b x}) (contexts r)\<rparr>)"
    by (rule close_contexts_of_prefix[OF dp cl])
  also have "\<dots> = close_contexts_of eng b (c # cpost) ?r1"
    by (simp only: k)
  finally have loop: "close_contexts_of eng b (contexts r) r = close_contexts_of eng b (c # cpost) ?r1" .
  have dcs: "distinct (keys ?cs)"
    using dc by (auto simp: split keys_def distinct_map_filter)
  have g1: "map_get (contexts ?r1) (fst c) = Some (snd c)"
    using map_get_middle[OF dcs] by simp
  have bad1: "\<not> closes_cleanly eng ?r1 (snd c)"
  proof
    assume c1: "closes_cleanly eng ?r1 (snd c)"
    have "\<forall>p \<in> set (pages r). page_of (snd c) p \<longrightarrow> \<not> page_throws eng p"
    proof (intro ballI impI)
      fix p assume p: "p \<in> set (pages r)" "page_of (snd c) p"
      show "\<not> page_throws eng p"
      proof (cases "\<exists>x \<in> set cpre. context_of b x \<and> page_of (snd x) p")
        case True
        with cl p(1) show ?thesis by (auto simp: closes_cleanly_def)
      next
        case False
        with p(1) have "p \<in> set ?ps" by simp
        moreover from c1 have "\<forall>p \<in> set ?ps. page_of (snd c) p \<longrightarrow> \<not> page_throws eng p"
          by (auto simp: closes_cleanly_def)
        ultimately show ?thesis using p(2) by blast
      qed
    qed
    with c1 have "closes_cleanly eng r (snd c)" by (simp add: closes_cleanly_def)
    with bad show False ..
  qed
  then have nok: "fst (close_context_entry eng (fst c) (snd c) ?r1) \<noteq> Inr ()"
    by (simp add: close_context_entry_ok_clean)
  obtain res r2 where e: "close_context_entry eng (fst c) (snd c) ?r1 = (res, r2)"
    by (cases "close_context_entry eng (fst c) (snd c) ?r1")
  with nok obtain err where res: "res = Inl err" by (cases res) auto
  have "close_contexts_of eng b (c # cpost) ?r1 = (Inl err, r2)"
    using own e res by (simp add: context_of_def)
  with loop got have cb: "closeBrowser eng r bid = (Inl err, r2)" by (simp add: closeBrowser_def)
  have "closeContext eng ?r1 (fst c) = (Inl err, r2)"
    using g1 e res by (simp add: closeContext_present)
  with cb show "closeBrowser eng r bid = closeContext eng ?r1 (fst c)" by simp
  from cb show "\<exists>err. fst (closeBrowser eng r bid) = Inl err" by simp
qed


lemma closeContext_page_throws:
  assumes "wf_registry r" "map_get (contexts r) cid = Some ctx" "pages r = pre @ q # post"
    "page_of ctx q" "page_throws eng q"
    "\<forall>e \<in> set pre. page_of ctx e \<longrightarrow> \<not> page_throws eng e"
  shows "closeContext eng r cid =
           (Inl (EngineError PageK (page_ref (snd q))),
            r\<lparr>pages := filter (\<lambda>p. \<not> page_of ctx p) pre @ q # post\<rparr>)"
proof -
  from assms(1) have d: "distinct (keys (pages r))" by (simp add: wf_registry_def)
  show ?thesis
    using close_context_entry_page_throws[OF d assms(3,4,5,6)] assms(2)
    by (simp add: closeContext_present)
qed

lemma closeContext_context_throws:
  assumes "wf_registry r" "map_get (contexts r) cid = Some ctx"
    "\<forall>e \<in> set (pages r). page_of ctx e \<longrightarrow> \<not> page_throws eng e"
    "context_ref ctx \<in> set (context_close_throws eng)"
  shows "closeContext eng r cid =
           (Inl (EngineError ContextK (context_ref ctx)),
            r\<lparr>pages := filter (\<lambda>p. \<not> page_of ctx p) (pages r)\<rparr>)"
proof -
  from assms(1) have d: "distinct (keys (pages r))" by (simp add: wf_registry_def)
  show ?thesis
    using close_context_entry_context_throws[OF d assms(3,4)] assms(2)
    by (simp add: closeContext_present)
qed

lemma closeBrowser_stops_wf:
  assumes wf: "wf_registry r" and split: "contexts r = cpre @ c # cpost"
  shows "wf_registry
           (r\<lparr>pages := filter P (pages r),
              contexts := filter (\<lambda>x. \<not> context_of b x) cpre @ c # cpost\<rparr>)"
    and "map_get (filter (\<lambda>x. \<not> context_of b x) cpre @ c # cpost) (fst c) = Some (snd c)"
proof -
  from wf have dp: "distinct (keys (pages r))" and dc: "distinct (keys (contexts r))"
    by (simp_all add: wf_registry_def)
  have dcs: "distinct (keys (filter (\<lambda>x. \<not> context_of b x) cpre @ c # cpost))"
    using dc by (auto simp: split keys_def distinct_map_filter)
  then show "map_get (filter (\<lambda>x. \<not> context_of b x) cpre @ c # cpost) (fst c) = Some (snd c)"
    by (rule map_get_middle)
  from wf dp dcs show "wf_registry
           (r\<lparr>pages := filter P (pages r),
              contexts := filter (\<lambda>x. \<not> context_of b x) cpre @ c # cpost\<rparr>)"
    by (simp add: wf_registry_def keys_def distinct_map_filter)
qed

lemma closeBrowser_page_throws:
  assumes wf: "wf_registry r" and got: "map_get (browsers r) bid = Some b"
    and split: "contexts r = cpre @ c # cpost"
    and cl: "\<forall>x \<in> set cpre. context_of b x \<longrightarrow> closes_cleanly eng r (snd x)"
    and own: "context_of b c"
    and psplit: "pages r = ppre @ q # ppost"
    and q: "page_of (snd c) q" "page_throws eng q"
    and first: "\<forall>p \<in> set ppre. page_of (snd c) p \<longrightarrow> \<not> page_throws eng p"
  shows "closeBrowser eng r bid =
     (Inl (EngineError PageK (page_ref (snd q))),
      r\<lparr>pages :=
           filter (\<lambda>p. \<not> (\<exists>x \<in> set cpre. context_of b x \<and> page_of (snd x) p)
                       \<and> \<not> page_of (snd c) p) ppre
           @ q # filter (\<lambda>p. \<not> (\<exists>x \<in> set cpre. context_of b x \<and> page_of (snd x) p)) ppost,
         contexts := filter (\<lambda>x. \<not> context_of b x) cpre @ c # cpost\<rparr>)"
proof -
  let ?gone = "\<lambda>p. \<exists>x \<in> set cpre. context_of b x \<and> page_of (snd x) p"
  let ?cs = "filter (\<lambda>x. \<not> context_of b x) cpre @ c # cpost"
  let ?r1 = "r\<lparr>pages := filter (\<lambda>p. \<not> ?gone p) (pages r), contexts := ?cs\<rparr>"
  have qin: "q \<in> set (pages r)" by (simp add: psplit)
  have bad: "\<not> closes_cleanly eng r (snd c)"
    using qin q by (auto simp: closes_cleanly_def)
  have ngq: "\<not> ?gone q"
    using cl qin q(2) by (auto simp: closes_cleanly_def)
  have eq: "closeBrowser eng r bid = closeContext eng ?r1 (fst c)"
    using wf got split cl own bad by (rule closeBrowser_stops(1))
  have w1: "wf_registry ?r1" and g1: "map_get (contexts ?r1) (fst c) = Some (snd c)"
    using closeBrowser_stops_wf(1)[OF wf split, where P = "\<lambda>p. \<not> ?gone p" and b = b]
      closeBrowser_stops_wf(2)[OF wf split, where b = b] by simp_all
  have p1: "pages ?r1 = filter (\<lambda>p. \<not> ?gone p) ppre @ q # filter (\<lambda>p. \<not> ?gone p) ppost"
    using ngq by (simp add: psplit)
  have f1: "\<forall>e \<in> set (filter (\<lambda>p. \<not> ?gone p) ppre). page_of (snd c) e \<longrightarrow> \<not> page_throws eng e"
    using first by simp
  have "closeContext eng ?r1 (fst c) =
     (Inl (EngineError PageK (page_ref (snd q))),
      ?r1\<lparr>pages := filter (\<lambda>p. \<not> page_of (snd c) p) (filter (\<lambda>p. \<not> ?gone p) ppre)
                   @ q # filter (\<lambda>p. \<not> ?gone p) ppost\<rparr>)"
    using w1 g1 p1 q f1 by (rule closeContext_page_throws)
  with eq show ?thesis by (simp add: conj_commute)
qed

lemma closeBrowser_context_throws:
  assumes wf: "wf_registry r" and got: "map_get (browsers r) bid = Some b"
    and split: "contexts r = cpre @ c # cpost"
    and cl: "\<forall>x \<in> set cpre. context_of b x \<longrightarrow> closes_cleanly eng r (snd x)"
    and own: "context_of b c"
    and pg: "\<forall>p \<in> set (pages r). page_of (snd c) p \<longrightarrow> \<not> page_throws eng p"
    and thr: "context_ref (snd c) \<in> set (context_close_throws eng)"
  shows "closeBrowser eng r bid =
     (Inl (EngineError ContextK (context_ref (snd c))),
      r\<lparr>pages :=
           filter (\<lambda>p. \<not> (\<exists>x \<in> set cpre. context_of b x \<and> page_of (snd x) p)
                       \<and> \<not> page_of (snd c) p) (pages r),
         contexts := filter (\<lambda>x. \<not> context_of b x) cpre @ c # cpost\<rparr>)"
proof -
  let ?gone = "\<lambda>p. \<exists>x \<in> set cpre. context_of b x \<and> page_of (snd x) p"
  let ?cs = "filter (\<lambda>x. \<not> context_of b x) cpre @ c # cpost"
  let ?r1 = "r\<lparr>pages := filter (\<lambda>p. \<not> ?gone p) (pages r), contexts := ?cs\<rparr>"
  have bad: "\<not> closes_cleanly eng r (snd c)"
    using thr by (simp add: closes_cleanly_def)
  have eq: "closeBrowser eng r bid = closeContext eng ?r1 (fst c)"
    using wf got split cl own bad by (rule closeBrowser_stops(1))
  have w1: "wf_registry ?r1" and g1: "map_get (contexts ?r1) (fst c) = Some (snd c)"
    using closeBrowser_stops_wf(1)[OF wf split, where P = "\<lambda>p. \<not> ?gone p" and b = b]
      closeBrowser_stops_wf(2)[OF wf split, where b = b] by simp_all
  have f1: "\<forall>e \<in> set (pages ?r1). page_of (snd c) e \<longrightarrow> \<not> page_throws eng e"
    using pg by simp
  have "closeContext eng ?r1 (fst c) =
     (Inl (EngineError ContextK (context_ref (snd c))),
      ?r1\<lparr>pages := filter (\<lambda>p. \<not> page_of (snd c) p) (pages ?r1)\<rparr>)"
    using w1 g1 f1 thr by (rule closeContext_context_throws)
  with eq show ?thesis by (simp add: conj_commute)
qed

lemma example_registry2_wf: "wf_registry example_registry2"
  by (simp add: wf_registry_def example_registry2_def keys_def)




lemma ex_closeBrowser_first:
  "closeBrowser first_page_fails example_registry ''b1'' =
     (Inl (EngineError PageK 3), example_registry)"
  by (simp add: closeBrowser_def close_context_entry_def map_get_def map_delete_def
      example_defs)



text \<open>
  Claim C3, as amended. The session teardown \<^verbatim>\<open>cleanupSession\<close> survives native close
  failures: the session's entry is always removed, a failing page close does not stop
  the browser close from being attempted, and every failure is logged. The cascade of
  the registry has no such handling: the first native close that throws ends
  \<^verbatim>\<open>closeContext\<close> or \<^verbatim>\<open>closeBrowser\<close> with the error of that handle. In the registry
  left behind the descendants closed before the throw are gone, while the failing
  handle, the pages and contexts not yet visited, and the context and browser being
  closed are all still in their maps.
\<close>

theorem close_failure_bookkeeping:
  "fst (cleanupSession eng activeSessions socketId) = map_delete activeSessions socketId
   \<and> \<not> map_has (fst (cleanupSession eng activeSessions socketId)) socketId
   \<and> (\<forall>s. map_get activeSessions socketId = Some s \<longrightarrow>
          (\<forall>p. session_page s = Some p \<longrightarrow>
              (if p \<in> set (page_close_throws eng)
               then PageCloseFailed socketId else PageClosed socketId)
                \<in> set (snd (cleanupSession eng activeSessions socketId)))
        \<and> (\<forall>b. session_browser s = Some b \<longrightarrow>
              (if b \<in> set (browser_close_throws eng)
               then BrowserCloseFailed socketId else BrowserClosed socketId)
                \<in> set (snd (cleanupSession eng activeSessions socketId)))
        \<and> SessionRemoved socketId \<in> set (snd (cleanupSession eng activeSessions socketId)))
   \<and> (\<forall>err. fst (closeContext eng r contextId) = Inl err \<longrightarrow>
          contexts (snd (closeContext eng r contextId)) = contexts r
        \<and> browsers (snd (closeContext eng r contextId)) = browsers r)
   \<and> (\<forall>err. fst (closeBrowser eng r browserId) = Inl err \<longrightarrow>
          browsers (snd (closeBrowser eng r browserId)) = browsers r)
   \<and> (\<forall>ctx. map_get (contexts r) contextId = Some ctx \<longrightarrow>
          (\<exists>p \<in> set (pages r). page_context (snd p) = context_ref ctx
              \<and> page_ref (snd p) \<in> set (page_close_throws eng))
          \<or> context_ref ctx \<in> set (context_close_throws eng) \<longrightarrow>
          (\<exists>k x. fst (closeContext eng r contextId) = Inl (EngineError k x)))
   \<and> (wf_registry r \<and> map_get (contexts r) contextId = Some ctx \<and> pages r = pre @ q # post
        \<and> page_of ctx q \<and> page_throws eng q
        \<and> (\<forall>p \<in> set pre. page_of ctx p \<longrightarrow> \<not> page_throws eng p) \<longrightarrow>
        closeContext eng r contextId =
          (Inl (EngineError PageK (page_ref (snd q))),
           r\<lparr>pages := filter (\<lambda>p. \<not> page_of ctx p) pre @ q # post\<rparr>))
   \<and> (wf_registry r \<and> map_get (contexts r) contextId = Some ctx
        \<and> (\<forall>p \<in> set (pages r). page_of ctx p \<longrightarrow> \<not> page_throws eng p)
        \<and> context_ref ctx \<in> set (context_close_throws eng) \<longrightarrow>
        closeContext eng r contextId =
          (Inl (EngineError ContextK (context_ref ctx)),
           r\<lparr>pages := filter (\<lambda>p. \<not> page_of ctx p) (pages r)\<rparr>))
   \<and> (wf_registry r \<and> map_get (browsers r) browserId = Some b \<and> contexts r = cpre @ c # cpost
        \<and> (\<forall>x \<in> set cpre. context_of b x \<longrightarrow> closes_cleanly eng r (snd x))
        \<and> context_of b c \<and> pages r = ppre @ t # ppost
        \<and> page_of (snd c) t \<and> page_throws eng t
        \<and> (\<forall>p \<in> set ppre. page_of (snd c) p \<longrightarrow> \<not> page_throws eng p) \<longrightarrow>
        closeBrowser eng r browserId =
          (Inl (EngineError PageK (page_ref (snd t))),
           r\<lparr>pages :=
                filter (\<lambda>p. \<not> (\<exists>x \<in> set cpre. context_of b x \<and> page_of (snd x) p)
                            \<and> \<not> page_of (snd c) p) ppre
                @ t # filter (\<lambda>p. \<not> (\<exists>x \<in> set cpre. context_of b x \<and> page_of (snd x) p)) ppost,
              contexts := filter (\<lambda>x. \<not> context_of b x) cpre @ c # cpost\<rparr>))
   \<and> (wf_registry r \<and> map_get (browsers r) browserId = Some b \<and> contexts r = cpre @ c # cpost
        \<and> (\<forall>x \<in> set cpre. context_of b x \<longrightarrow> closes_cleanly eng r (snd x))
        \<and> context_of b c
        \<and> (\<forall>p \<in> set (pages r). page_of (snd c) p \<longrightarrow> \<not> page_throws eng p)
        \<and> context_ref (snd c) \<in> set (context_close_throws eng) \<longrightarrow>
        closeBrowser eng r browserId =
          (Inl (EngineError ContextK (context_ref (snd c))),
           r\<lparr>pages :=
                filter (\<lambda>p. \<not> (\<exists>x \<in> set cpre. context_of b x \<and> page_of (snd x) p)
                            \<and> \<not> page_of (snd c) p) (pages r),
              contexts := filter (\<lambda>x. \<not> context_of b x) cpre @ c # cpost\<rparr>))
   \<and> (wf_registry r \<and> map_get (browsers r) browserId = Some b
        \<and> (\<forall>x \<in> set (contexts r). context_of b x \<longrightarrow> closes_cleanly eng r (snd x))
        \<and> browser_ref b \<in> set (browser_close_throws eng) \<longrightarrow>
        closeBrowser eng r browserId =
          (Inl (EngineError BrowserK (browser_ref b)),
           r\<lparr>pages := filter (\<lambda>p. \<not> (\<exists>x \<in> set (contexts r). context_of b x \<and> page_of (snd x) p))
                        (pages r),
              contexts := filter (\<lambda>x. \<not> context_of b x) (contexts r)\<rparr>))"
proof (intro conjI allI impI)
  show del: "fst (cleanupSession eng activeSessions socketId) = map_delete activeSessions socketId"
    by (simp add: cleanupSession_def map_delete_absent split: option.splits)
  show "\<not> map_has (fst (cleanupSession eng activeSessions socketId)) socketId"
    by (simp add: del not_map_has_delete)
next
  fix s p assume "map_get activeSessions socketId = Some s" "session_page s = Some p"
  then show "(if p \<in> set (page_close_throws eng)
               then PageCloseFailed socketId else PageClosed socketId)
                \<in> set (snd (cleanupSession eng activeSessions socketId))"
    by (simp add: cleanupSession_def)
next
  fix s b assume "map_get activeSessions socketId = Some s" "session_browser s = Some b"
  then show "(if b \<in> set (browser_close_throws eng)
               then BrowserCloseFailed socketId else BrowserClosed socketId)
                \<in> set (snd (cleanupSession eng activeSessions socketId))"
    by (simp add: cleanupSession_def)
next
  fix s assume "map_get activeSessions socketId = Some s"
  then show "SessionRemoved socketId \<in> set (snd (cleanupSession eng activeSessions socketId))"
    by (simp add: cleanupSession_def)
next
  fix err assume f: "fst (closeContext eng r contextId) = Inl err"
  then show "contexts (snd (closeContext eng r contextId)) = contexts r"
    by (simp add: closeContext_frame(3))
  show "browsers (snd (closeContext eng r contextId)) = browsers r"
    by (rule closeContext_frame(1))
next
  fix err assume "fst (closeBrowser eng r browserId) = Inl err"
  then show "browsers (snd (closeBrowser eng r browserId)) = browsers r"
    by (simp add: closeBrowser_browsers)
next
  fix ctx assume got: "map_get (contexts r) contextId = Some ctx"
    and thr: "(\<exists>p \<in> set (pages r). page_context (snd p) = context_ref ctx
              \<and> page_ref (snd p) \<in> set (page_close_throws eng))
          \<or> context_ref ctx \<in> set (context_close_throws eng)"
  from thr have "fst (close_context_entry eng contextId ctx r) \<noteq> Inr ()"
    by (auto simp: close_context_entry_ok_iff close_pages_of_ok_iff)
  with got have "fst (closeContext eng r contextId) \<noteq> Inr ()"
    by (simp add: closeContext_present)
  then obtain err where e: "fst (closeContext eng r contextId) = Inl err"
    by (cases "fst (closeContext eng r contextId)") auto
  with got closeContext_err[OF e] show "\<exists>k x. fst (closeContext eng r contextId) = Inl (EngineError k x)"
    by auto
next
  assume a: "wf_registry r \<and> map_get (contexts r) contextId = Some ctx \<and> pages r = pre @ q # post
        \<and> page_of ctx q \<and> page_throws eng q
        \<and> (\<forall>p \<in> set pre. page_of ctx p \<longrightarrow> \<not> page_throws eng p)"
  show "closeContext eng r contextId =
          (Inl (EngineError PageK (page_ref (snd q))),
           r\<lparr>pages := filter (\<lambda>p. \<not> page_of ctx p) pre @ q # post\<rparr>)"
    using a by (intro closeContext_page_throws) blast+
next
  assume a: "wf_registry r \<and> map_get (contexts r) contextId = Some ctx
        \<and> (\<forall>p \<in> set (pages r). page_of ctx p \<longrightarrow> \<not> page_throws eng p)
        \<and> context_ref ctx \<in> set (context_close_throws eng)"
  show "closeContext eng r contextId =
          (Inl (EngineError ContextK (context_ref ctx)),
           r\<lparr>pages := filter (\<lambda>p. \<not> page_of ctx p) (pages r)\<rparr>)"
    using a by (intro closeContext_context_throws) blast+
next
  assume a: "wf_registry r \<and> map_get (browsers r) browserId = Some b \<and> contexts r = cpre @ c # cpost
        \<and> (\<forall>x \<in> set cpre. context_of b x \<longrightarrow> closes_cleanly eng r (snd x))
        \<and> context_of b c \<and> pages r = ppre @ t # ppost
        \<and> page_of (snd c) t \<and> page_throws eng t
        \<and> (\<forall>p \<in> set ppre. page_of (snd c) p \<longrightarrow> \<not> page_throws eng p)"
  show "closeBrowser eng r browserId =
          (Inl (EngineError PageK (page_ref (snd t))),
           r\<lparr>pages :=
                filter (\<lambda>p. \<not> (\<exists>x \<in> set cpre. context_of b x \<and> page_of (snd x) p)
                            \<and> \<not> page_of (snd c) p) ppre
                @ t # filter (\<lambda>p. \<not> (\<exists>x \<in> set cpre. context_of b x \<and> page_of (snd x) p)) ppost,
              contexts := filter (\<lambda>x. \<not> context_of b x) cpre @ c # cpost\<rparr>)"
    using a by (intro closeBrowser_page_throws) blast+
next
  assume a: "wf_registry r \<and> map_get (browsers r) browserId = Some b \<and> contexts r = cpre @ c # cpost
        \<and> (\<forall>x \<in> set cpre. context_of b x \<longrightarrow> closes_cleanly eng r (snd x))
        \<and> context_of b c
        \<and> (\<forall>p \<in> set (pages r). page_of (snd c) p \<longrightarrow> \<not> page_throws eng p)
        \<and> context_ref (snd c) \<in> set (context_close_throws eng)"
  show "closeBrowser eng r browserId =
          (Inl (EngineError ContextK (context_ref (snd c))),
           r\<lparr>pages :=
                filter (\<lambda>p. \<not> (\<exists>x \<in> set cpre. context_of b x \<and> page_of (snd x) p)
                            \<and> \<not> page_of (snd c) p) (pages r),
              contexts := filter (\<lambda>x. \<not> context_of b x) cpre @ c # cpost\<rparr>)"
    using a by (intro closeBrowser_context_throws) blast+
next
  assume a: "wf_registry r \<and> map_get (browsers r) browserId = Some b
        \<and> (\<forall>x \<in> set (contexts r). context_of b x \<longrightarrow> closes_cleanly eng r (snd x))
        \<and> browser_ref b \<in> set (browser_close_throws eng)"
  then have "closeBrowser eng r browserId =
     (if browser_ref b \<in> set (browser_close_throws eng)
      then (Inl (EngineError BrowserK (browser_ref b)),
            r\<lparr>pages := filter (\<lambda>p. \<not> (\<exists>c \<in> set (contexts r). context_of b c \<and> page_of (snd c) p)) (pages r),
               contexts := filter (\<lambda>c. \<not> context_of b c) (contexts r)\<rparr>)
      else (Inr (),
            r\<lparr>pages := filter (\<lambda>p. \<not> (\<exists>c \<in> set (contexts r). context_of b c \<and> page_of (snd c) p)) (pages r),
               contexts := filter (\<lambda>c. \<not> context_of b c) (contexts r),
               browsers := map_delete (browsers r) browserId\<rparr>))"
    by (intro closeBrowser_clean) blast+
  with a show "closeBrowser eng r browserId =
          (Inl (EngineError BrowserK (browser_ref b)),
           r\<lparr>pages := filter (\<lambda>p. \<not> (\<exists>x \<in> set (contexts r). context_of b x \<and> page_of (snd x) p))
                        (pages r),
              contexts := filter (\<lambda>x. \<not> context_of b x) (contexts r)\<rparr>)"
    by simp
qed

theorem close_failure_bookkeeping_counterexample:
  "closeBrowser first_page_fails example_registry ''b1''
     = (Inl (EngineError PageK 3), example_registry)
   \<and> map_has (pages example_registry) ''p1''
   \<and> map_has (pages example_registry) ''p2''
   \<and> map_has (contexts example_registry) ''c1''
   \<and> map_has (browsers example_registry) ''b1''"
  by (simp add: ex_closeBrowser_first) (simp add: example_registry_def map_has_def)

theorem close_failure_bookkeeping_witness:
  "map_get example_sessions ''s1'' = Some \<lparr>session_browser = Some 1, session_page = Some 3\<rparr>
   \<and> fst (cleanupSession first_page_fails example_sessions ''s1'')
       = [(''s2'', \<lparr>session_browser = None, session_page = None\<rparr>)]
   \<and> PageCloseFailed ''s1'' \<in> set (snd (cleanupSession first_page_fails example_sessions ''s1''))
   \<and> BrowserClosed ''s1'' \<in> set (snd (cleanupSession first_page_fails example_sessions ''s1''))
   \<and> SessionRemoved ''s1'' \<in> set (snd (cleanupSession first_page_fails example_sessions ''s1''))
   \<and> wf_registry example_registry2
   \<and> map_get (browsers example_registry2) ''b1'' = Some (Browser 1 Chromium)
   \<and> contexts example_registry2 = [(''c1'', BrowserContext 2 1)] @ (''c2'', BrowserContext 5 1) # []
   \<and> closes_cleanly third_page_fails example_registry2 (BrowserContext 2 1)
   \<and> context_of (Browser 1 Chromium) (''c2'', BrowserContext 5 1)
   \<and> pages example_registry2 = [(''p1'', Page 3 2), (''p2'', Page 4 5)] @ (''p3'', Page 6 5) # []
   \<and> page_of (BrowserContext 5 1) (''p3'', Page 6 5)
   \<and> page_throws third_page_fails (''p3'', Page 6 5)
   \<and> \<not> page_throws third_page_fails (''p2'', Page 4 5)
   \<and> closeBrowser third_page_fails example_registry2 ''b1'' =
       (Inl (EngineError PageK 6),
        example_registry2\<lparr>pages := [(''p3'', Page 6 5)],
                            contexts := [(''c2'', BrowserContext 5 1)]\<rparr>)
   \<and> fst (closeBrowser first_page_fails example_registry ''b1'') = Inl (EngineError PageK 3)
   \<and> browsers (snd (closeBrowser first_page_fails example_registry ''b1''))
       = browsers example_registry"
proof -
  have got: "map_get example_sessions ''s1''
               = Some \<lparr>session_browser = Some 1, session_page = Some 3\<rparr>"
    by (simp add: example_sessions_def map_get_def)
  have del: "map_delete example_sessions ''s1''
               = [(''s2'', \<lparr>session_browser = None, session_page = None\<rparr>)]"
    by (simp add: example_sessions_def map_delete_def)
  have thr: "page_close_throws first_page_fails = [3]" "browser_close_throws first_page_fails = []"
    by (simp_all add: first_page_fails_def)
  have g2: "map_get (browsers example_registry2) ''b1'' = Some (Browser 1 Chromium)"
    and cs: "contexts example_registry2
              = [(''c1'', BrowserContext 2 1)] @ (''c2'', BrowserContext 5 1) # []"
    and ps: "pages example_registry2
              = [(''p1'', Page 3 2), (''p2'', Page 4 5)] @ (''p3'', Page 6 5) # []"
    by (simp_all add: example_registry2_def map_get_def)
  have cl: "closes_cleanly third_page_fails example_registry2 (BrowserContext 2 1)"
    "context_of (Browser 1 Chromium) (''c2'', BrowserContext 5 1)"
    "page_of (BrowserContext 5 1) (''p3'', Page 6 5)"
    "page_throws third_page_fails (''p3'', Page 6 5)"
    "\<not> page_throws third_page_fails (''p2'', Page 4 5)"
    by (simp_all add: closes_cleanly_def context_of_def page_of_def page_throws_def
        example_registry2_def third_page_fails_def)
  have first: "\<forall>p \<in> set [(''p1'', Page 3 2), (''p2'', Page 4 5)].
                 page_of (snd (''c2'', BrowserContext 5 1)) p \<longrightarrow> \<not> page_throws third_page_fails p"
    by (simp add: page_of_def page_throws_def third_page_fails_def)
  have B: "closeBrowser third_page_fails example_registry2 ''b1'' =
       (Inl (EngineError PageK (page_ref (snd (''p3'', Page 6 5)))),
        example_registry2\<lparr>pages :=
            filter (\<lambda>p. \<not> (\<exists>x \<in> set [(''c1'', BrowserContext 2 1)].
                         context_of (Browser 1 Chromium) x \<and> page_of (snd x) p)
                       \<and> \<not> page_of (snd (''c2'', BrowserContext 5 1)) p)
              [(''p1'', Page 3 2), (''p2'', Page 4 5)]
            @ (''p3'', Page 6 5)
            # filter (\<lambda>p. \<not> (\<exists>x \<in> set [(''c1'', BrowserContext 2 1)].
                         context_of (Browser 1 Chromium) x \<and> page_of (snd x) p)) [],
          contexts := filter (\<lambda>x. \<not> context_of (Browser 1 Chromium) x) [(''c1'', BrowserContext 2 1)]
                        @ (''c2'', BrowserContext 5 1) # []\<rparr>)"
    using close_failure_bookkeeping[where r = example_registry2 and eng = third_page_fails
        and browserId = "''b1''" and b = "Browser 1 Chromium"
        and cpre = "[(''c1'', BrowserContext 2 1)]" and c = "(''c2'', BrowserContext 5 1)"
        and cpost = "[]" and ppre = "[(''p1'', Page 3 2), (''p2'', Page 4 5)]"
        and t = "(''p3'', Page 6 5)" and ppost = "[]"]
      example_registry2_wf g2 cs ps cl(1-4) first
    by simp
  have B': "closeBrowser third_page_fails example_registry2 ''b1'' =
       (Inl (EngineError PageK 6),
        example_registry2\<lparr>pages := [(''p3'', Page 6 5)],
                            contexts := [(''c2'', BrowserContext 5 1)]\<rparr>)"
    using B by (simp add: page_of_def context_of_def)
  have S: "fst (cleanupSession first_page_fails example_sessions ''s1'')
       = [(''s2'', \<lparr>session_browser = None, session_page = None\<rparr>)]
   \<and> PageCloseFailed ''s1'' \<in> set (snd (cleanupSession first_page_fails example_sessions ''s1''))
   \<and> BrowserClosed ''s1'' \<in> set (snd (cleanupSession first_page_fails example_sessions ''s1''))
   \<and> SessionRemoved ''s1'' \<in> set (snd (cleanupSession first_page_fails example_sessions ''s1''))
   \<and> browsers (snd (closeBrowser first_page_fails example_registry ''b1''))
       = browsers example_registry"
    using close_failure_bookkeeping[where eng = first_page_fails
        and activeSessions = example_sessions and socketId = "''s1''"
        and r = example_registry and browserId = "''b1''"]
    by (simp add: got del thr ex_closeBrowser_first)
  have C: "fst (closeBrowser first_page_fails example_registry ''b1'') = Inl (EngineError PageK 3)"
    by (simp add: ex_closeBrowser_first)
  show ?thesis
    using got example_registry2_wf g2 cs ps cl B' S C by blast
qed

text \<open>
  Claim C8, as amended. A creation call whose id is already present in the map of its
  kind fails and stores nothing. \<^verbatim>\<open>launchBrowser\<close> fails with the duplicate-id error. So
  do \<^verbatim>\<open>createContext\<close> and \<^verbatim>\<open>createPage\<close> when the parent they name is registered; they
  look the parent up first, and when it is absent they fail with the parent's not-found
  error instead. An id removed by a successful close is no longer present: creating it
  again succeeds.
\<close>

theorem duplicate_id_rejection:
  "(map_has (browsers r) browserId \<longrightarrow>
      launchBrowser launched r browserType browserId = (Inl (AlreadyExists BrowserK browserId), r))
   \<and> (map_has (contexts r) contextId \<longrightarrow>
        createContext created r browserId contextId =
          (if map_has (browsers r) browserId then (Inl (AlreadyExists ContextK contextId), r)
           else (Inl (NotFound BrowserK browserId), r)))
   \<and> (map_has (pages r) pageId \<longrightarrow>
        createPage created r contextId pageId =
          (if map_has (contexts r) contextId then (Inl (AlreadyExists PageK pageId), r)
           else (Inl (NotFound ContextK contextId), r)))
   \<and> (fst (closePage eng r pageId) = Inr () \<longrightarrow> map_has (contexts r) contextId \<longrightarrow>
        fst (createPage (Some n) (snd (closePage eng r pageId)) contextId pageId) = Inr ())
   \<and> (fst (closeContext eng r contextId) = Inr () \<longrightarrow> map_has (browsers r) browserId \<longrightarrow>
        fst (createContext (Some n) (snd (closeContext eng r contextId)) browserId contextId)
          = Inr ())
   \<and> (fst (closeBrowser eng r browserId) = Inr () \<longrightarrow> parse_browser_type browserType \<noteq> None \<longrightarrow>
        fst (launchBrowser (Some n) (snd (closeBrowser eng r browserId)) browserType browserId)
          = Inr ())"
proof (intro conjI impI)
  assume "map_has (browsers r) browserId"
  then show "launchBrowser launched r browserType browserId
               = (Inl (AlreadyExists BrowserK browserId), r)"
    by (simp add: launchBrowser_def)
next
  assume "map_has (contexts r) contextId"
  then show "createContext created r browserId contextId =
          (if map_has (browsers r) browserId then (Inl (AlreadyExists ContextK contextId), r)
           else (Inl (NotFound BrowserK browserId), r))"
    by (auto simp: createContext_def map_has_get split: option.splits)
next
  assume "map_has (pages r) pageId"
  then show "createPage created r contextId pageId =
          (if map_has (contexts r) contextId then (Inl (AlreadyExists PageK pageId), r)
           else (Inl (NotFound ContextK contextId), r))"
    by (auto simp: createPage_def map_has_get split: option.splits)
next
  assume ok: "fst (closePage eng r pageId) = Inr ()" and c: "map_has (contexts r) contextId"
  from ok have "\<not> map_has (pages (snd (closePage eng r pageId))) pageId"
    using closePage_outcome[of eng r pageId] by auto
  moreover have "contexts (snd (closePage eng r pageId)) = contexts r"
    by (simp add: closePage_def split: option.splits)
  ultimately show "fst (createPage (Some n) (snd (closePage eng r pageId)) contextId pageId) = Inr ()"
    using c by (auto simp: createPage_def map_has_get split: option.splits)
next
  assume ok: "fst (closeContext eng r contextId) = Inr ()" and b: "map_has (browsers r) browserId"
  from ok have "\<not> map_has (contexts (snd (closeContext eng r contextId))) contextId"
    by (simp add: closeContext_frame(3) not_map_has_delete)
  moreover have "browsers (snd (closeContext eng r contextId)) = browsers r"
    by (rule closeContext_frame(1))
  ultimately show "fst (createContext (Some n) (snd (closeContext eng r contextId))
                     browserId contextId) = Inr ()"
    using b by (auto simp: createContext_def map_has_get split: option.splits)
next
  assume ok: "fst (closeBrowser eng r browserId) = Inr ()"
    and t: "parse_browser_type browserType \<noteq> None"
  from ok have "\<not> map_has (browsers (snd (closeBrowser eng r browserId))) browserId"
    by (simp add: closeBrowser_browsers not_map_has_delete)
  with t show "fst (launchBrowser (Some n) (snd (closeBrowser eng r browserId))
                 browserType browserId) = Inr ()"
    by (auto simp: launchBrowser_def split: option.splits)
qed

theorem duplicate_id_rejection_counterexample:
  "map_has (contexts example_registry) ''c1''
   \<and> createContext (Some 9) example_registry ''b2'' ''c1''
       = (Inl (NotFound BrowserK ''b2''), example_registry)
   \<and> fst (createContext (Some 9) example_registry ''b2'' ''c1'')
       \<noteq> Inl (AlreadyExists ContextK ''c1'')"
  by (simp add: createContext_def map_get_def map_has_def example_registry_def)

theorem duplicate_id_rejection_witness:
  "map_has (browsers example_registry) ''b1''
   \<and> launchBrowser (Some 9) example_registry ''chromium'' ''b1''
       = (Inl (AlreadyExists BrowserK ''b1''), example_registry)
   \<and> map_has (contexts example_registry) ''c1''
   \<and> createContext (Some 9) example_registry ''b1'' ''c1''
       = (Inl (AlreadyExists ContextK ''c1''), example_registry)
   \<and> map_has (pages example_registry) ''p1''
   \<and> createPage (Some 9) example_registry ''c1'' ''p1''
       = (Inl (AlreadyExists PageK ''p1''), example_registry)
   \<and> fst (closePage quiet_engine example_registry ''p1'') = Inr ()
   \<and> fst (createPage (Some 9) (snd (closePage quiet_engine example_registry ''p1'')) ''c1'' ''p1'')
       = Inr ()
   \<and> fst (closeBrowser quiet_engine example_registry ''b1'') = Inr ()
   \<and> parse_browser_type ''firefox'' \<noteq> None
   \<and> fst (launchBrowser (Some 9) (snd (closeBrowser quiet_engine example_registry ''b1''))
            ''firefox'' ''b1'') = Inr ()"
proof -
  have has: "map_has (browsers example_registry) ''b1''" "map_has (contexts example_registry) ''c1''"
    "map_has (pages example_registry) ''p1''"
    by (simp_all add: example_registry_def map_has_def)
  have cp: "fst (closePage quiet_engine example_registry ''p1'') = Inr ()"
    by (simp add: closePage_def map_get_def example_registry_def quiet_engine_def)
  have pt: "parse_browser_type ''firefox'' \<noteq> None" by (simp add: parse_browser_type_def)
  show ?thesis
    using duplicate_id_rejection[of example_registry "''b1''" "Some 9" "''chromium''" "''c1''"
        "Some 9" "''p1''" quiet_engine 9]
      duplicate_id_rejection[of example_registry "''b1''" "Some 9" "''firefox''" "''c1''"
        "Some 9" "''p1''" quiet_engine 9]
    by (simp add: has cp pt ex_closeBrowser)
qed

section \<open>Properties of element resolution\<close>

lemma findElement_loop_find:
  "findElement_loop page selector ss =
     map_option (\<lambda>s. s selector) (find (yields_visible page selector) ss)"
  by (induction ss) (auto simp: yields_visible_def Let_def split: sum.splits)

lemma findElement_loop_Some_iff:
  "findElement_loop page selector ss = Some element \<longleftrightarrow>
     (\<exists>i < length ss. yields_visible page selector (ss ! i)
         \<and> (\<forall>j < i. \<not> yields_visible page selector (ss ! j))
         \<and> element = (ss ! i) selector)"
  by (auto simp: findElement_loop_find find_Some_iff)

lemma findElement_loop_None_iff:
  "findElement_loop page selector ss = None \<longleftrightarrow>
     (\<forall>i < length ss. \<not> yields_visible page selector (ss ! i))"
  by (auto simp: findElement_loop_find find_None_iff in_set_conv_nth)

lemma strategies_length: "length PLAYWRIGHT_SELECTOR_STRATEGIES = 8"
  by (simp add: PLAYWRIGHT_SELECTOR_STRATEGIES_def)

text \<open>
  Claim C4 (strategy precedence). The strategy list has eight entries in the order exact
  selector, text, aria-label, title, placeholder, button with text, link with text, any
  element with text. \<^verbatim>\<open>findElement\<close> returns a locator exactly when some strategy yields a
  visible candidate, and then it is the locator of the first such strategy in list order:
  no strategy before it yields one, and no later strategy's locator is returned. It
  returns \<^verbatim>\<open>null\<close> exactly when no strategy yields a visible candidate.
\<close>

theorem findElement_precedence:
  \<open>map (\<lambda>strategy. strategy ''x'') PLAYWRIGHT_SELECTOR_STRATEGIES =
      [''x'', ''text=x'', ''[aria-label*="x" i]'', ''[title*="x" i]'', ''[placeholder*="x" i]'',
       ''button:has-text("x")'', ''a:has-text("x")'', ''*:has-text("x")'']
   \<and> (findElement page selector = Some element \<longleftrightarrow>
        (\<exists>i < 8. yields_visible page selector (PLAYWRIGHT_SELECTOR_STRATEGIES ! i)
           \<and> (\<forall>j < i. \<not> yields_visible page selector (PLAYWRIGHT_SELECTOR_STRATEGIES ! j))
           \<and> element = (PLAYWRIGHT_SELECTOR_STRATEGIES ! i) selector))
   \<and> (findElement page selector = None \<longleftrightarrow>
        (\<forall>i < 8. \<not> yields_visible page selector (PLAYWRIGHT_SELECTOR_STRATEGIES ! i)))\<close>
proof (intro conjI)
  show \<open>map (\<lambda>strategy. strategy ''x'') PLAYWRIGHT_SELECTOR_STRATEGIES =
      [''x'', ''text=x'', ''[aria-label*="x" i]'', ''[title*="x" i]'', ''[placeholder*="x" i]'',
       ''button:has-text("x")'', ''a:has-text("x")'', ''*:has-text("x")'']\<close>
    by (simp add: PLAYWRIGHT_SELECTOR_STRATEGIES_def)
  show "findElement page selector = Some element \<longleftrightarrow>
        (\<exists>i < 8. yields_visible page selector (PLAYWRIGHT_SELECTOR_STRATEGIES ! i)
           \<and> (\<forall>j < i. \<not> yields_visible page selector (PLAYWRIGHT_SELECTOR_STRATEGIES ! j))
           \<and> element = (PLAYWRIGHT_SELECTOR_STRATEGIES ! i) selector)"
    unfolding findElement_def findElement_loop_Some_iff strategies_length ..
  show "findElement page selector = None \<longleftrightarrow>
        (\<forall>i < 8. \<not> yields_visible page selector (PLAYWRIGHT_SELECTOR_STRATEGIES ! i))"
    unfolding findElement_def findElement_loop_None_iff strategies_length ..
qed

lemma example_page_yields:
  "\<not> yields_visible example_page ''Login'' (PLAYWRIGHT_SELECTOR_STRATEGIES ! 0)"
  "yields_visible example_page ''Login'' (PLAYWRIGHT_SELECTOR_STRATEGIES ! 1)"
  "yields_visible example_page ''Login'' (PLAYWRIGHT_SELECTOR_STRATEGIES ! 5)"
  by (simp_all add: yields_visible_def PLAYWRIGHT_SELECTOR_STRATEGIES_def example_page_def)

theorem findElement_precedence_witness:
  \<open>\<not> yields_visible example_page ''Login'' (PLAYWRIGHT_SELECTOR_STRATEGIES ! 0)
   \<and> yields_visible example_page ''Login'' (PLAYWRIGHT_SELECTOR_STRATEGIES ! 1)
   \<and> yields_visible example_page ''Login'' (PLAYWRIGHT_SELECTOR_STRATEGIES ! 5)
   \<and> findElement example_page ''Login'' = Some ''text=Login''
   \<and> findElement example_page ''Login'' \<noteq> Some ''button:has-text("Login")''\<close>
proof -
  have "\<exists>i<8. yields_visible example_page ''Login'' (PLAYWRIGHT_SELECTOR_STRATEGIES ! i)
           \<and> (\<forall>j < i. \<not> yields_visible example_page ''Login'' (PLAYWRIGHT_SELECTOR_STRATEGIES ! j))
           \<and> ''text=Login'' = (PLAYWRIGHT_SELECTOR_STRATEGIES ! i) ''Login''"
  proof (intro exI[of _ 1] conjI allI impI)
    show "(1::nat) < 8" by simp
    show "yields_visible example_page ''Login'' (PLAYWRIGHT_SELECTOR_STRATEGIES ! 1)"
      by (rule example_page_yields(2))
    show "''text=Login'' = (PLAYWRIGHT_SELECTOR_STRATEGIES ! 1) ''Login''"
      by (simp add: PLAYWRIGHT_SELECTOR_STRATEGIES_def)
    fix j :: nat assume "j < 1"
    then have "j = 0" by simp
    then show "\<not> yields_visible example_page ''Login'' (PLAYWRIGHT_SELECTOR_STRATEGIES ! j)"
      using example_page_yields(1) by simp
  qed
  then have "findElement example_page ''Login'' = Some ''text=Login''"
    using findElement_precedence[of example_page "''Login''" "''text=Login''"] by blast
  with example_page_yields show ?thesis by simp
qed

section \<open>Properties of workflow execution\<close>

lemma executeWorkflow_loop_step:
  "executeWorkflow_loop dispatch r pageId (s # rest) w results =
     executeWorkflow_loop dispatch r pageId rest
       (snd (executeNaturalLanguageCommand dispatch r w (step_command s) pageId))
       (results @ [step_outcome dispatch r pageId w s])"
  by (cases "executeNaturalLanguageCommand dispatch r w (step_command s) pageId")
     (auto simp: step_outcome_def split: sum.splits)

lemma executeWorkflow_loop_acc:
  "executeWorkflow_loop dispatch r pageId ss w acc =
     (acc @ fst (executeWorkflow_loop dispatch r pageId ss w []),
      snd (executeWorkflow_loop dispatch r pageId ss w []))"
proof (induction ss arbitrary: w acc)
  case Nil
  show ?case by simp
next
  case (Cons s ss)
  let ?w' = "snd (executeNaturalLanguageCommand dispatch r w (step_command s) pageId)"
  let ?x = "step_outcome dispatch r pageId w s"
  have "executeWorkflow_loop dispatch r pageId (s # ss) w acc =
          executeWorkflow_loop dispatch r pageId ss ?w' (acc @ [?x])"
    by (rule executeWorkflow_loop_step)
  also have "\<dots> = ((acc @ [?x]) @ fst (executeWorkflow_loop dispatch r pageId ss ?w' []),
                    snd (executeWorkflow_loop dispatch r pageId ss ?w' []))"
    by (rule Cons.IH)
  finally have a: "executeWorkflow_loop dispatch r pageId (s # ss) w acc =
      (acc @ ?x # fst (executeWorkflow_loop dispatch r pageId ss ?w' []),
       snd (executeWorkflow_loop dispatch r pageId ss ?w' []))" by simp
  have "executeWorkflow_loop dispatch r pageId (s # ss) w [] =
          executeWorkflow_loop dispatch r pageId ss ?w' ([] @ [?x])"
    by (rule executeWorkflow_loop_step)
  also have "\<dots> = (([] @ [?x]) @ fst (executeWorkflow_loop dispatch r pageId ss ?w' []),
                    snd (executeWorkflow_loop dispatch r pageId ss ?w' []))"
    by (rule Cons.IH)
  finally have b: "executeWorkflow_loop dispatch r pageId (s # ss) w [] =
      (?x # fst (executeWorkflow_loop dispatch r pageId ss ?w' []),
       snd (executeWorkflow_loop dispatch r pageId ss ?w' []))" by simp
  show ?case unfolding a b by simp
qed

lemma executeWorkflow_loop_append:
  "executeWorkflow_loop dispatch r pageId (xs @ ys) w acc =
     executeWorkflow_loop dispatch r pageId ys
       (snd (executeWorkflow_loop dispatch r pageId xs w acc))
       (fst (executeWorkflow_loop dispatch r pageId xs w acc))"
  by (induction xs arbitrary: w acc) (simp_all add: executeWorkflow_loop_step del: executeWorkflow_loop.simps(2))

lemma executeWorkflow_loop_length:
  "length (fst (executeWorkflow_loop dispatch r pageId ss w acc)) = length acc + length ss"
  by (induction ss arbitrary: w acc) (simp_all add: executeWorkflow_loop_step del: executeWorkflow_loop.simps(2))

lemma executeWorkflow_loop_nth:
  assumes "i < length ss"
  shows "fst (executeWorkflow_loop dispatch r pageId ss w []) ! i =
           step_outcome dispatch r pageId
             (snd (executeWorkflow_loop dispatch r pageId (take i ss) w [])) (ss ! i)"
proof -
  let ?pre = "executeWorkflow_loop dispatch r pageId (take i ss) w []"
  let ?w' = "snd (executeNaturalLanguageCommand dispatch r (snd ?pre)
                (step_command (ss ! i)) pageId)"
  let ?x = "step_outcome dispatch r pageId (snd ?pre) (ss ! i)"
  have len: "length (fst ?pre) = i"
    using assms by (simp add: executeWorkflow_loop_length)
  have "ss = take i ss @ (ss ! i) # drop (Suc i) ss"
    using assms by (simp add: id_take_nth_drop)
  then have "executeWorkflow_loop dispatch r pageId ss w [] =
      executeWorkflow_loop dispatch r pageId ((ss ! i) # drop (Suc i) ss) (snd ?pre) (fst ?pre)"
    using executeWorkflow_loop_append[of dispatch r pageId "take i ss" "(ss ! i) # drop (Suc i) ss" w "[]"]
    by simp
  also have "\<dots> = executeWorkflow_loop dispatch r pageId (drop (Suc i) ss) ?w' (fst ?pre @ [?x])"
    by (rule executeWorkflow_loop_step)
  also have "\<dots> = ((fst ?pre @ [?x])
                     @ fst (executeWorkflow_loop dispatch r pageId (drop (Suc i) ss) ?w' []),
                    snd (executeWorkflow_loop dispatch r pageId (drop (Suc i) ss) ?w' []))"
    by (rule executeWorkflow_loop_acc)
  finally have "fst (executeWorkflow_loop dispatch r pageId ss w []) =
      fst ?pre @ ?x # fst (executeWorkflow_loop dispatch r pageId (drop (Suc i) ss) ?w' [])"
    by simp
  then show ?thesis using len by (simp add: nth_append)
qed

lemma result_step_outcome: "result_step (step_outcome dispatch r pageId w s) = step_name s"
  by (simp add: step_outcome_def split: sum.splits)

text \<open>
  Claim C5 (workflow step isolation). For every list of steps the workflow call reports
  \<open>success = true\<close>, whatever the steps did. The result list has one entry per step, in
  step order and under the step's name. Entry \<open>i\<close> is what running step \<open>i\<close> gives in the
  browser state left by the steps before it: its result when it returns, its error when
  it throws. So every step is attempted, also after a step that threw.
\<close>

theorem executeWorkflow_isolation:
  "response_success (fst (executeWorkflow dispatch r w workflow pageId)) = True
   \<and> length (response_workflow (fst (executeWorkflow dispatch r w workflow pageId)))
       = length workflow
   \<and> map result_step (response_workflow (fst (executeWorkflow dispatch r w workflow pageId)))
       = map step_name workflow
   \<and> (\<forall>i < length workflow.
         response_workflow (fst (executeWorkflow dispatch r w workflow pageId)) ! i =
           step_outcome dispatch r pageId
             (snd (executeWorkflow dispatch r w (take i workflow) pageId)) (workflow ! i))"
proof -
  let ?l = "\<lambda>ss. executeWorkflow_loop dispatch r pageId ss w []"
  have res: "\<And>ss. response_workflow (fst (executeWorkflow dispatch r w ss pageId)) = fst (?l ss)"
    and st: "\<And>ss. snd (executeWorkflow dispatch r w ss pageId) = snd (?l ss)"
    and ok: "response_success (fst (executeWorkflow dispatch r w workflow pageId)) = True"
    by (simp_all add: executeWorkflow_def split: prod.splits)
  have len: "length (fst (?l workflow)) = length workflow"
    by (simp add: executeWorkflow_loop_length)
  have nth: "\<forall>i < length workflow. fst (?l workflow) ! i =
               step_outcome dispatch r pageId (snd (?l (take i workflow))) (workflow ! i)"
    by (simp add: executeWorkflow_loop_nth)
  have names: "map result_step (fst (?l workflow)) = map step_name workflow"
    using len nth by (auto intro!: nth_equalityI simp: result_step_outcome)
  show ?thesis using ok len nth names by (simp add: res st)
qed

lemma ex_workflow:
  "executeWorkflow example_dispatch example_registry 0 example_workflow ''p1'' =
     (\<lparr>response_success = True,
       response_workflow =
         [StepResult ''one'' 0, StepError ''two'' (Thrown ''timeout''), StepResult ''three'' 2]\<rparr>,
      3)"
  by (simp add: executeWorkflow_def executeNaturalLanguageCommand_def example_dispatch_def
      example_workflow_def example_registry_def map_get_def)

theorem executeWorkflow_isolation_witness:
  "(1::nat) < length example_workflow
   \<and> response_success
        (fst (executeWorkflow example_dispatch example_registry 0 example_workflow ''p1''))
   \<and> response_workflow
        (fst (executeWorkflow example_dispatch example_registry 0 example_workflow ''p1''))
       = [StepResult ''one'' 0, StepError ''two'' (Thrown ''timeout''), StepResult ''three'' 2]
   \<and> step_outcome example_dispatch example_registry ''p1''
        (snd (executeWorkflow example_dispatch example_registry 0 (take 1 example_workflow) ''p1''))
        (example_workflow ! 1)
       = StepError ''two'' (Thrown ''timeout'')"
proof -
  note T = executeWorkflow_isolation[of example_dispatch example_registry 0 example_workflow "''p1''"]
  have l: "(1::nat) < length example_workflow" by (simp add: example_workflow_def)
  from T l have "response_workflow
        (fst (executeWorkflow example_dispatch example_registry 0 example_workflow ''p1'')) ! 1
      = step_outcome example_dispatch example_registry ''p1''
        (snd (executeWorkflow example_dispatch example_registry 0 (take 1 example_workflow) ''p1''))
        (example_workflow ! 1)" by blast
  then have "step_outcome example_dispatch example_registry ''p1''
        (snd (executeWorkflow example_dispatch example_registry 0 (take 1 example_workflow) ''p1''))
        (example_workflow ! 1) = StepError ''two'' (Thrown ''timeout'')"
    by (simp add: ex_workflow)
  with l show ?thesis by (simp add: ex_workflow)
qed

section \<open>Properties of the wait and scroll handlers\<close>

lemmas parseInt_defs = parseInt_def is_white_space_def is_digit_def digit_of_def digits_value_def

lemma parseInt_2000: "parseInt ''2000'' = Some 2000"
  by (simp add: parseInt_defs)

lemma handleWait_valid:
  assumes "parseInt duration = Some n" and "0 < n"
  shows "handleWait timeout_throws duration =
     (case timeout_throws of
        Some msg \<Rightarrow> Some (Inl msg, [EmitStatus (Waiting (Some n)) Info, WaitForTimeout (Some n)])
      | None \<Rightarrow> Some (Inr (), [EmitStatus (Waiting (Some n)) Info, WaitForTimeout (Some n),
                              EmitStatus WaitComplete Success]))"
  using assms
  by (subst handleWait.simps) (simp add: Let_def js_or_def isNaN_def js_le_zero_def)

lemma handleWait_fallback:
  assumes "parseInt duration = None \<or> parseInt duration = Some 0"
  shows "handleWait timeout_throws duration =
     (case timeout_throws of
        Some msg \<Rightarrow> Some (Inl msg, [EmitStatus (Waiting (Some 2000)) Info, WaitForTimeout (Some 2000)])
      | None \<Rightarrow> Some (Inr (), [EmitStatus (Waiting (Some 2000)) Info, WaitForTimeout (Some 2000),
                              EmitStatus WaitComplete Success]))"
  using assms
  by (subst handleWait.simps) (auto simp: Let_def js_or_def isNaN_def js_le_zero_def)

lemma handleWait_negative:
  assumes "parseInt duration = Some n" and "n < 0"
  shows "handleWait timeout_throws duration =
     (case timeout_throws of
        Some msg \<Rightarrow> Some (Inl msg, [EmitStatus (InvalidWaitDuration duration) Warning,
                                   EmitStatus (Waiting (Some 2000)) Info, WaitForTimeout (Some 2000)])
      | None \<Rightarrow> Some (Inr (), [EmitStatus (InvalidWaitDuration duration) Warning,
                              EmitStatus (Waiting (Some 2000)) Info, WaitForTimeout (Some 2000),
                              EmitStatus WaitComplete Success]))"
proof -
  have d: "handleWait timeout_throws ''2000'' =
     (case timeout_throws of
        Some msg \<Rightarrow> Some (Inl msg, [EmitStatus (Waiting (Some 2000)) Info, WaitForTimeout (Some 2000)])
      | None \<Rightarrow> Some (Inr (), [EmitStatus (Waiting (Some 2000)) Info, WaitForTimeout (Some 2000),
                              EmitStatus WaitComplete Success]))"
    using parseInt_2000 by (rule handleWait_valid) simp
  show ?thesis
    using assms
    by (subst handleWait.simps) (simp add: d Let_def js_or_def isNaN_def js_le_zero_def split: option.splits)
qed

lemma parseInt_cases:
  obtains "parseInt duration = None \<or> parseInt duration = Some 0"
  | n where "parseInt duration = Some n" "0 < n"
  | n where "parseInt duration = Some n" "n < 0"
proof (cases "parseInt duration")
  case None
  then show ?thesis using that(1) by simp
next
  case (Some n)
  then show ?thesis using that by (cases "n = 0"; cases "0 < n") auto
qed

text \<open>
  Claim C9 (termination of \<^verbatim>\<open>handleWait\<close>). For every input string the call returns,
  and the run emits the retry warning at most once, that is, re-invokes itself at most
  once. The default \<open>2000\<close> parses to a positive integer. A parse result of \<^verbatim>\<open>NaN\<close> or
  \<open>0\<close> is replaced by 2000 before the check and is not retried; the retry is taken
  exactly for a negative parse result.
\<close>

theorem handleWait_terminates:
  "(\<exists>res effects. handleWait timeout_throws duration = Some (res, effects) \<and> retries effects \<le> 1)
   \<and> parseInt ''2000'' = Some 2000
   \<and> (parseInt duration = None \<or> parseInt duration = Some 0 \<longrightarrow>
        js_or (parseInt duration) (Some 2000) = Some 2000)
   \<and> (\<forall>res effects. handleWait timeout_throws duration = Some (res, effects) \<longrightarrow>
        (retries effects = 1 \<longleftrightarrow> (\<exists>n < 0. parseInt duration = Some n)))"
proof (intro conjI allI impI)
  show "\<exists>res effects. handleWait timeout_throws duration = Some (res, effects) \<and> retries effects \<le> 1"
    by (cases duration rule: parseInt_cases)
       (auto simp: handleWait_valid handleWait_fallback handleWait_negative retries_def
          split: option.splits)
  show "parseInt ''2000'' = Some 2000" by (rule parseInt_2000)
next
  assume "parseInt duration = None \<or> parseInt duration = Some 0"
  then show "js_or (parseInt duration) (Some 2000) = Some 2000"
    by (auto simp: js_or_def)
next
  fix res effects assume "handleWait timeout_throws duration = Some (res, effects)"
  then show "retries effects = 1 \<longleftrightarrow> (\<exists>n < 0. parseInt duration = Some n)"
    by (cases duration rule: parseInt_cases)
       (auto simp: handleWait_valid handleWait_fallback handleWait_negative retries_def
          split: option.splits)
qed

lemma parseInt_minus5: "parseInt ''-5'' = Some (- 5)"
  by (simp add: parseInt_defs)

lemma parseInt_abc: "parseInt ''abc'' = None"
  by (simp add: parseInt_defs)

lemma parseInt_0: "parseInt ''0'' = Some 0"
  by (simp add: parseInt_defs)

theorem handleWait_terminates_witness:
  "parseInt ''abc'' = None
   \<and> js_or (parseInt ''abc'') (Some 2000) = Some 2000
   \<and> handleWait None ''-5'' =
       Some (Inr (), [EmitStatus (InvalidWaitDuration ''-5'') Warning,
                      EmitStatus (Waiting (Some 2000)) Info, WaitForTimeout (Some 2000),
                      EmitStatus WaitComplete Success])
   \<and> retries [EmitStatus (InvalidWaitDuration ''-5'') Warning,
               EmitStatus (Waiting (Some 2000)) Info, WaitForTimeout (Some 2000),
               EmitStatus WaitComplete Success] = 1
   \<and> parseInt ''-5'' = Some (- 5)"
proof -
  have w: "handleWait None ''-5'' =
       Some (Inr (), [EmitStatus (InvalidWaitDuration ''-5'') Warning,
                      EmitStatus (Waiting (Some 2000)) Info, WaitForTimeout (Some 2000),
                      EmitStatus WaitComplete Success])"
    using handleWait_negative[OF parseInt_minus5, of None] by simp
  show ?thesis
    using handleWait_terminates[of None "''abc''"] handleWait_terminates[of None "''-5''"]
    by (simp add: w parseInt_abc parseInt_minus5)
qed

text \<open>
  Claim C6 at its failing inputs. A non-numeric duration and the duration \<open>0\<close> wait the
  default 2000 ms, but no warning is emitted: the only statuses are the \<open>info\<close> and the
  \<open>success\<close> of a normal wait. The warning is emitted for a negative duration only.
\<close>

theorem handleWait_fallback_without_warning:
  "handleWait None ''abc'' =
     Some (Inr (), [EmitStatus (Waiting (Some 2000)) Info, WaitForTimeout (Some 2000),
                    EmitStatus WaitComplete Success])
   \<and> handleWait None ''0'' =
     Some (Inr (), [EmitStatus (Waiting (Some 2000)) Info, WaitForTimeout (Some 2000),
                    EmitStatus WaitComplete Success])
   \<and> handleWait None ''-5'' =
     Some (Inr (), [EmitStatus (InvalidWaitDuration ''-5'') Warning,
                    EmitStatus (Waiting (Some 2000)) Info, WaitForTimeout (Some 2000),
                    EmitStatus WaitComplete Success])
   \<and> handleWait None ''500ms'' =
     Some (Inr (), [EmitStatus (Waiting (Some 500)) Info, WaitForTimeout (Some 500),
                    EmitStatus WaitComplete Success])"
proof -
  have p: "parseInt ''500ms'' = Some 500" by (simp add: parseInt_defs)
  show ?thesis
    using handleWait_fallback[of "''abc''" None] handleWait_fallback[of "''0''" None]
      handleWait_negative[OF parseInt_minus5, of None] handleWait_valid[OF p, of None]
    by (simp add: parseInt_abc parseInt_0)
qed

lemma evaluate_scroll_ok:
  "evaluate_scroll None direction scroll =
     (Inr (), [EmitStatus (Scrolling direction) Info, scroll, EmitStatus (Scrolled direction) Success])"
  by (simp add: evaluate_scroll_def)

lemma handleScroll_unknown:
  assumes "toLowerCase direction \<notin> {''down'', ''up'', ''top'', ''home'', ''bottom''}"
  shows "handleScroll evaluate_throws direction =
           (Inr (), [EmitStatus (Scrolling direction) Info,
                     EmitStatus (UnknownScrollDirection direction) Warning])"
  using assms by (simp add: handleScroll_def)

lemma toLowerCase_left_right:
  "toLowerCase ''left'' = ''left''" "toLowerCase ''right'' = ''right''"
  by (simp_all add: toLowerCase_def)

text \<open>
  Claim C7, as amended. \<^verbatim>\<open>handleScroll\<close> compares the lower-cased target: \<open>down\<close> scrolls
  by \<open>(0, +500)\<close>, \<open>up\<close> by \<open>(0, -500)\<close>, \<open>top\<close> or \<open>home\<close> scrolls to the top edge,
  \<open>bottom\<close> to the bottom edge; every other target, \<open>left\<close> and \<open>right\<close> among
  them, emits a warning, scrolls nothing and returns normally. \<^verbatim>\<open>extractScrollData\<close>
  gives \<open>(0, +500)\<close> for a command containing \<open>down\<close>, else \<open>(0, -500)\<close> for one
  containing \<open>up\<close>, else \<open>(+500, 0)\<close> for \<open>right\<close>, else \<open>(-500, 0)\<close> for \<open>left\<close>,
  and \<open>(0, +500)\<close> for every other command; \<^verbatim>\<open>handleScrollCommand\<close> scrolls by that
  amount and emits no warning.
\<close>

theorem scroll_direction_mapping:
  "(toLowerCase direction = ''down'' \<longrightarrow>
      handleScroll None direction =
        (Inr (), [EmitStatus (Scrolling direction) Info, ScrollBy 0 500,
                  EmitStatus (Scrolled direction) Success]))
   \<and> (toLowerCase direction = ''up'' \<longrightarrow>
      handleScroll None direction =
        (Inr (), [EmitStatus (Scrolling direction) Info, ScrollBy 0 (- 500),
                  EmitStatus (Scrolled direction) Success]))
   \<and> (toLowerCase direction = ''top'' \<or> toLowerCase direction = ''home'' \<longrightarrow>
      handleScroll None direction =
        (Inr (), [EmitStatus (Scrolling direction) Info, ScrollTo 0 0,
                  EmitStatus (Scrolled direction) Success]))
   \<and> (toLowerCase direction = ''bottom'' \<longrightarrow>
      handleScroll None direction =
        (Inr (), [EmitStatus (Scrolling direction) Info, ScrollToBottom,
                  EmitStatus (Scrolled direction) Success]))
   \<and> (toLowerCase direction \<notin> {''down'', ''up'', ''top'', ''home'', ''bottom''} \<longrightarrow>
      handleScroll evaluate_throws direction =
        (Inr (), [EmitStatus (Scrolling direction) Info,
                  EmitStatus (UnknownScrollDirection direction) Warning]))
   \<and> handleScroll evaluate_throws ''left'' =
        (Inr (), [EmitStatus (Scrolling ''left'') Info,
                  EmitStatus (UnknownScrollDirection ''left'') Warning])
   \<and> handleScroll evaluate_throws ''right'' =
        (Inr (), [EmitStatus (Scrolling ''right'') Info,
                  EmitStatus (UnknownScrollDirection ''right'') Warning])
   \<and> (js_includes command ''down'' \<longrightarrow> extractScrollData command = (0, 500))
   \<and> (\<not> js_includes command ''down'' \<and> js_includes command ''up'' \<longrightarrow>
        extractScrollData command = (0, - 500))
   \<and> (\<not> js_includes command ''down'' \<and> \<not> js_includes command ''up''
        \<and> js_includes command ''right'' \<longrightarrow> extractScrollData command = (500, 0))
   \<and> (\<not> js_includes command ''down'' \<and> \<not> js_includes command ''up''
        \<and> \<not> js_includes command ''right'' \<and> js_includes command ''left'' \<longrightarrow>
        extractScrollData command = (- 500, 0))
   \<and> (\<not> js_includes command ''down'' \<and> \<not> js_includes command ''up''
        \<and> \<not> js_includes command ''right'' \<and> \<not> js_includes command ''left'' \<longrightarrow>
        extractScrollData command = (0, 500))
   \<and> handleScrollCommand None command =
        (Inr (extractScrollData command),
         [ScrollBy (fst (extractScrollData command)) (snd (extractScrollData command))])"
proof (intro conjI impI)
  assume "toLowerCase direction = ''down''"
  then show "handleScroll None direction =
        (Inr (), [EmitStatus (Scrolling direction) Info, ScrollBy 0 500,
                  EmitStatus (Scrolled direction) Success])"
    by (simp add: handleScroll_def evaluate_scroll_ok)
next
  assume "toLowerCase direction = ''up''"
  then show "handleScroll None direction =
        (Inr (), [EmitStatus (Scrolling direction) Info, ScrollBy 0 (- 500),
                  EmitStatus (Scrolled direction) Success])"
    by (simp add: handleScroll_def evaluate_scroll_ok)
next
  assume "toLowerCase direction = ''top'' \<or> toLowerCase direction = ''home''"
  then show "handleScroll None direction =
        (Inr (), [EmitStatus (Scrolling direction) Info, ScrollTo 0 0,
                  EmitStatus (Scrolled direction) Success])"
    by (auto simp: handleScroll_def evaluate_scroll_ok)
next
  assume "toLowerCase direction = ''bottom''"
  then show "handleScroll None direction =
        (Inr (), [EmitStatus (Scrolling direction) Info, ScrollToBottom,
                  EmitStatus (Scrolled direction) Success])"
    by (simp add: handleScroll_def evaluate_scroll_ok)
next
  assume "toLowerCase direction \<notin> {''down'', ''up'', ''top'', ''home'', ''bottom''}"
  then show "handleScroll evaluate_throws direction =
        (Inr (), [EmitStatus (Scrolling direction) Info,
                  EmitStatus (UnknownScrollDirection direction) Warning])"
    by (rule handleScroll_unknown)
next
  show "handleScroll evaluate_throws ''left'' =
        (Inr (), [EmitStatus (Scrolling ''left'') Info,
                  EmitStatus (UnknownScrollDirection ''left'') Warning])"
    by (rule handleScroll_unknown) (simp add: toLowerCase_left_right)
  show "handleScroll evaluate_throws ''right'' =
        (Inr (), [EmitStatus (Scrolling ''right'') Info,
                  EmitStatus (UnknownScrollDirection ''right'') Warning])"
    by (rule handleScroll_unknown) (simp add: toLowerCase_left_right)
  show "handleScrollCommand None command =
        (Inr (extractScrollData command),
         [ScrollBy (fst (extractScrollData command)) (snd (extractScrollData command))])"
    by (simp add: handleScrollCommand_def Let_def)
qed (simp_all add: extractScrollData_def)

theorem scroll_direction_mapping_counterexample:
  "handleScroll None ''left'' =
     (Inr (), [EmitStatus (Scrolling ''left'') Info,
               EmitStatus (UnknownScrollDirection ''left'') Warning])
   \<and> handleScroll None ''right'' =
     (Inr (), [EmitStatus (Scrolling ''right'') Info,
               EmitStatus (UnknownScrollDirection ''right'') Warning])
   \<and> handleScrollCommand None ''scroll to the top'' = (Inr (0, 500), [ScrollBy 0 500])
   \<and> handleScrollCommand None ''scroll sideways'' = (Inr (0, 500), [ScrollBy 0 500])"
  by (simp add: handleScroll_def toLowerCase_def handleScrollCommand_def extractScrollData_def
      Let_def)

theorem scroll_direction_mapping_witness:
  "toLowerCase ''Down'' = ''down''
   \<and> handleScroll None ''Down'' =
       (Inr (), [EmitStatus (Scrolling ''Down'') Info, ScrollBy 0 500,
                 EmitStatus (Scrolled ''Down'') Success])
   \<and> toLowerCase ''diagonal'' \<notin> {''down'', ''up'', ''top'', ''home'', ''bottom''}
   \<and> handleScroll None ''diagonal'' =
       (Inr (), [EmitStatus (Scrolling ''diagonal'') Info,
                 EmitStatus (UnknownScrollDirection ''diagonal'') Warning])
   \<and> \<not> js_includes ''scroll left'' ''down'' \<and> \<not> js_includes ''scroll left'' ''up''
   \<and> \<not> js_includes ''scroll left'' ''right'' \<and> js_includes ''scroll left'' ''left''
   \<and> extractScrollData ''scroll left'' = (- 500, 0)"
proof -
  have a: "toLowerCase ''Down'' = ''down''" "toLowerCase ''diagonal'' = ''diagonal''"
    by (simp_all add: toLowerCase_def)
  have b: "\<not> js_includes ''scroll left'' ''down''" "\<not> js_includes ''scroll left'' ''up''"
    "\<not> js_includes ''scroll left'' ''right''" "js_includes ''scroll left'' ''left''"
    by simp_all
  show ?thesis
    using scroll_direction_mapping[of "''Down''" None "''scroll left''"]
      scroll_direction_mapping[of "''diagonal''" None "''scroll left''"]
    by (simp add: a b)
qed

end
